theory Spec2Isabelle
  imports Main "HOL-Library.Word"
begin

unbundle bit_operations_syntax

section \<open>The editor state of vce.c\<close>

text \<open>
  The arena is the block of \<open>BUF\<close> bytes that \<open>init_buf\<close> obtains; the C pointer
  \<open>buf\<close> is its first address. A pointer into the arena is modelled by its distance
  from \<open>buf\<close>, an \<open>int\<close>: \<open>buf\<close> itself is 0 and \<open>ebuf = buf + BUF\<close> is the length
  of the arena. The C \<open>int\<close> variables are modelled by \<open>int\<close>; in a well-formed state all
  of them lie between \<open>-2\<close> and \<open>BUF + 1\<close>, so no C arithmetic on them wraps for any
  arena size the program is built with (at most 8 MiB).
\<close>

type_synonym byte = "8 word"

record state =
  buf :: "byte list"
  gap :: int
  egap :: int
  idx :: int
  page :: int
  epage :: int
  row :: int
  col :: int
  line :: int
  dirty :: int
  filename :: "byte list option"

definition ebuf :: "state \<Rightarrow> int" where
  "ebuf s = int (length (buf s))"

text \<open>
  A dereference outside the arena is undefined behaviour in C; the model makes it a
  value, telling on which side of the arena the address lay.
\<close>

datatype fault = Below | Above

definition load :: "state \<Rightarrow> int \<Rightarrow> fault + byte" where
  "load s p =
     (if p < 0 then Inl Below
      else if ebuf s \<le> p then Inl Above
      else Inr (buf s ! nat p))"

definition store :: "state \<Rightarrow> int \<Rightarrow> byte \<Rightarrow> fault + state" where
  "store s p b =
     (if p < 0 then Inl Below
      else if ebuf s \<le> p then Inl Above
      else Inr (s\<lparr>buf := (buf s)[nat p := b]\<rparr>))"

subsection \<open>Addressing: \<open>ptr\<close> and \<open>pos\<close>\<close>

definition ptr :: "state \<Rightarrow> int \<Rightarrow> int" where
  "ptr s offset =
     (if offset < 0 then 0
      else offset + (if offset < gap s then 0 else egap s - gap s))"

definition pos :: "state \<Rightarrow> int \<Rightarrow> int" where
  "pos s pointer = pointer - (if pointer < egap s then 0 else egap s - gap s)"

subsection \<open>The document held by a state\<close>

text \<open>
  The bytes before \<open>gap\<close> followed by the bytes from \<open>egap\<close> on: what \<open>save_file\<close>
  writes. Its length is the value the code computes as \<open>pos(ebuf)\<close>.
\<close>

definition doc :: "state \<Rightarrow> byte list" where
  "doc s = take (nat (gap s)) (buf s) @ drop (nat (egap s)) (buf s)"

definition buf_ok :: "state \<Rightarrow> bool" where
  "buf_ok s = (0 \<le> gap s \<and> gap s \<le> egap s \<and> egap s \<le> ebuf s)"

definition state_ok :: "state \<Rightarrow> bool" where
  "state_ok s = (buf_ok s \<and> 0 \<le> idx s \<and> idx s \<le> pos s (ebuf s))"

subsection \<open>Gap relocation: \<open>movegap\<close>\<close>

text \<open>The first loop, \<^verbatim>\<open>while (p < gap) *--egap = *--gap;\<close>\<close>

function movegap_back :: "int \<Rightarrow> state \<Rightarrow> fault + state" where
  "movegap_back p s =
     (if p < gap s then
        (case load s (gap s - 1) of
           Inl f \<Rightarrow> Inl f
         | Inr b \<Rightarrow>
             (case store s (egap s - 1) b of
                Inl f \<Rightarrow> Inl f
              | Inr s' \<Rightarrow> movegap_back p (s'\<lparr>gap := gap s - 1, egap := egap s - 1\<rparr>)))
      else Inr s)"
  by pat_completeness auto
termination
  by (relation "measure (\<lambda>(p, s). nat (gap s - p))") auto

declare movegap_back.simps [simp del]

text \<open>The second loop, \<^verbatim>\<open>while (egap < p) *gap++ = *egap++;\<close>\<close>

function movegap_fwd :: "int \<Rightarrow> state \<Rightarrow> fault + state" where
  "movegap_fwd p s =
     (if egap s < p then
        (case load s (egap s) of
           Inl f \<Rightarrow> Inl f
         | Inr b \<Rightarrow>
             (case store s (gap s) b of
                Inl f \<Rightarrow> Inl f
              | Inr s' \<Rightarrow> movegap_fwd p (s'\<lparr>gap := gap s + 1, egap := egap s + 1\<rparr>)))
      else Inr s)"
  by pat_completeness auto
termination
  by (relation "measure (\<lambda>(p, s). nat (p - egap s))") auto

declare movegap_fwd.simps [simp del]

definition movegap :: "state \<Rightarrow> fault + state" where
  "movegap s =
     (case movegap_back (ptr s (idx s)) s of
        Inl f \<Rightarrow> Inl f
      | Inr s1 \<Rightarrow>
          (case movegap_fwd (ptr s (idx s)) s1 of
             Inl f \<Rightarrow> Inl f
           | Inr s2 \<Rightarrow> Inr (s2\<lparr>idx := pos s2 (egap s2)\<rparr>)))"

subsection \<open>Navigation: \<open>prevline\<close>, \<open>nextline\<close>, \<open>adjust\<close> and the cursor keys\<close>

text \<open>
  \<^verbatim>\<open>while (buf < (p = ptr(--offset)) && *p != '\n') ; return (buf < p ? ++offset : 0);\<close>
  The byte is read only when \<open>buf < p\<close> (the \<open>&&\<close> of C); the loop leaves with
  \<open>buf < p\<close> exactly when it met a newline.
\<close>

function prevline :: "state \<Rightarrow> int \<Rightarrow> fault + int" where
  "prevline s offset =
     (if 0 < ptr s (offset - 1) then
        (case load s (ptr s (offset - 1)) of
           Inl f \<Rightarrow> Inl f
         | Inr c \<Rightarrow> if c \<noteq> 10 then prevline s (offset - 1) else Inr ((offset - 1) + 1))
      else Inr 0)"
  by pat_completeness auto
termination
  by (relation "measure (\<lambda>(s, offset). nat offset)") (auto simp: ptr_def split: if_splits)

declare prevline.simps [simp del]

text \<open>
  \<^verbatim>\<open>while ((p = ptr(offset++)) < ebuf && *p != '\n') ; return (p < ebuf ? offset : pos(ebuf));\<close>
\<close>

function nextline :: "state \<Rightarrow> int \<Rightarrow> fault + int" where
  "nextline s offset =
     (if ptr s offset < ebuf s then
        (case load s (ptr s offset) of
           Inl f \<Rightarrow> Inl f
         | Inr c \<Rightarrow> if c \<noteq> 10 then nextline s (offset + 1) else Inr (offset + 1))
      else Inr (pos s (ebuf s)))"
  by pat_completeness auto
termination
  by (relation "measure (\<lambda>(s, offset). nat (ebuf s + max 0 (gap s - egap s) - offset))")
     (auto simp: ptr_def split: if_splits)

declare nextline.simps [simp del]

text \<open>
  The loop of \<open>adjust\<close>, with the running offset and the column counter \<open>i\<close>:
  \<^verbatim>\<open>while ((p = ptr(offset)) < ebuf && *p != '\n' && i < column) {
    i += (*p == '\t') ? 8 - (i & 7) : 1; ++offset; }\<close>
\<close>

function adjust_loop :: "state \<Rightarrow> int \<Rightarrow> int \<Rightarrow> int \<Rightarrow> fault + int" where
  "adjust_loop s column offset i =
     (if ptr s offset < ebuf s then
        (case load s (ptr s offset) of
           Inl f \<Rightarrow> Inl f
         | Inr c \<Rightarrow>
             if c \<noteq> 10 \<and> i < column
             then adjust_loop s column (offset + 1) (i + (if c = 9 then 8 - (i AND 7) else 1))
             else Inr offset)
      else Inr offset)"
  by pat_completeness auto
termination
  by (relation "measure (\<lambda>(s, column, offset, i). nat (ebuf s + max 0 (gap s - egap s) - offset))")
     (auto simp: ptr_def split: if_splits)

declare adjust_loop.simps [simp del]

definition adjust :: "state \<Rightarrow> int \<Rightarrow> int \<Rightarrow> fault + int" where
  "adjust s offset column = adjust_loop s column offset 0"

definition left :: "state \<Rightarrow> state" where
  "left s = (if 0 < idx s then s\<lparr>idx := idx s - 1\<rparr> else s)"

definition right :: "state \<Rightarrow> state" where
  "right s = (if idx s < pos s (ebuf s) then s\<lparr>idx := idx s + 1\<rparr> else s)"

definition up :: "state \<Rightarrow> fault + state" where
  "up s =
     (case prevline s (idx s) of
        Inl f \<Rightarrow> Inl f
      | Inr a \<Rightarrow>
          (case prevline s (a - 1) of
             Inl f \<Rightarrow> Inl f
           | Inr b \<Rightarrow>
               (case adjust s b (col s) of
                  Inl f \<Rightarrow> Inl f
                | Inr c \<Rightarrow> Inr (s\<lparr>idx := c\<rparr>))))"

definition down :: "state \<Rightarrow> fault + state" where
  "down s =
     (case nextline s (idx s) of
        Inl f \<Rightarrow> Inl f
      | Inr a \<Rightarrow>
          (case adjust s a (col s) of
             Inl f \<Rightarrow> Inl f
           | Inr c \<Rightarrow> Inr (s\<lparr>idx := c\<rparr>)))"

subsection \<open>Insertion and deletion: \<open>insert\<close>\<close>

text \<open>
  The argument is the \<open>int\<close> that \<open>fgetc\<close> returned; the assignment to a \<open>char\<close>
  keeps its low eight bits.
\<close>

definition insert_ch :: "state \<Rightarrow> int \<Rightarrow> fault + state" where
  "insert_ch s ch =
     (case movegap s of
        Inl f \<Rightarrow> Inl f
      | Inr s1 \<Rightarrow>
          (case
             (if ch = 8 \<or> ch = 127 then
                (if 0 < gap s1 then Inr (s1\<lparr>gap := gap s1 - 1\<rparr>) else Inr s1)
              else if gap s1 < egap s1 then
                (case store s1 (gap s1) (word_of_int (if ch = 13 then 10 else ch)) of
                   Inl f \<Rightarrow> Inl f
                 | Inr s2 \<Rightarrow> Inr (s2\<lparr>gap := gap s2 + 1\<rparr>))
              else Inr s1)
           of
             Inl f \<Rightarrow> Inl f
           | Inr s3 \<Rightarrow> Inr (s3\<lparr>idx := pos s3 (egap s3)\<rparr>)))"

subsection \<open>The display: \<open>get_lineno\<close> and \<open>update_display\<close>\<close>

text \<open>
  \<^verbatim>\<open>line = 1; while (i < idx) { if (buf[i++] == '\n') ++line; }\<close>
\<close>

function get_lineno_loop :: "state \<Rightarrow> int \<Rightarrow> int \<Rightarrow> fault + int" where
  "get_lineno_loop s i ln =
     (if i < idx s then
        (case load s i of
           Inl f \<Rightarrow> Inl f
         | Inr c \<Rightarrow> get_lineno_loop s (i + 1) (if c = 10 then ln + 1 else ln))
      else Inr ln)"
  by pat_completeness auto
termination
  by (relation "measure (\<lambda>(s, i, ln). nat (idx s - i))") auto

declare get_lineno_loop.simps [simp del]

definition get_lineno :: "state \<Rightarrow> fault + state" where
  "get_lineno s =
     (case get_lineno_loop s 0 1 of
        Inl f \<Rightarrow> Inl f
      | Inr ln \<Rightarrow> Inr (s\<lparr>line := ln\<rparr>))"

text \<open>\<^verbatim>\<open>while (0 < i--) page = prevline(page - 1);\<close>\<close>

function page_back :: "int \<Rightarrow> state \<Rightarrow> fault + state" where
  "page_back i s =
     (if 0 < i then
        (case prevline s (page s - 1) of
           Inl f \<Rightarrow> Inl f
         | Inr pg \<Rightarrow> page_back (i - 1) (s\<lparr>page := pg\<rparr>))
      else Inr s)"
  by pat_completeness auto
termination
  by (relation "measure (\<lambda>(i, s). nat i)") auto

declare page_back.simps [simp del]

text \<open>
  The render loop of \<open>update_display\<close>, with the grid position \<open>(i, j)\<close>. The parameters
  \<open>ROW_MAX\<close> and \<open>COL_MAX\<close> are the macros of that name (24 and 80 unless the build
  overrides them). The character grid \<open>screen\<close>, the mode line and the terminal output
  are written and never read back by these functions; they are left out, and only the
  effect of each byte on the column \<open>j\<close> is kept.
\<close>

definition next_col :: "int \<Rightarrow> byte \<Rightarrow> int" where
  "next_col j c =
     (if c \<noteq> 13 then
        (if c = 10 then j + 1
         else if c = 9 then j + (8 - (j AND 7))
         else j + 1)
      else j)"

text \<open>\<^verbatim>\<open>if (idx == epage) { row = i; col = j; }\<close>, the first statement of the loop body.\<close>

definition mark_cursor :: "int \<Rightarrow> int \<Rightarrow> state \<Rightarrow> state" where
  "mark_cursor i j s = (if idx s = epage s then s\<lparr>row := i, col := j\<rparr> else s)"

function render :: "int \<Rightarrow> int \<Rightarrow> int \<Rightarrow> int \<Rightarrow> state \<Rightarrow> fault + state" where
  "render ROW_MAX COL_MAX i j s =
     (if ROW_MAX - 1 \<le> i \<or> ebuf (mark_cursor i j s) \<le> ptr (mark_cursor i j s) (epage s)
      then Inr (mark_cursor i j s)
      else
        (case load (mark_cursor i j s) (ptr (mark_cursor i j s) (epage s)) of
           Inl f \<Rightarrow> Inl f
         | Inr c \<Rightarrow>
             if c = 10 \<or> COL_MAX \<le> next_col j c
             then render ROW_MAX COL_MAX (i + 1) 0 ((mark_cursor i j s)\<lparr>epage := epage s + 1\<rparr>)
             else render ROW_MAX COL_MAX i (next_col j c) ((mark_cursor i j s)\<lparr>epage := epage s + 1\<rparr>)))"
  by pat_completeness auto
termination
  by (relation "measure (\<lambda>(ROW_MAX, COL_MAX, i, j, s). nat (ebuf s + max 0 (gap s - egap s) - epage s))")
     (auto simp: ptr_def ebuf_def mark_cursor_def split: if_splits)

declare render.simps [simp del]

definition update_display :: "int \<Rightarrow> int \<Rightarrow> state \<Rightarrow> fault + state" where
  "update_display ROW_MAX COL_MAX s =
     (case
        (if idx s < page s then
           (case prevline s (idx s) of
              Inl f \<Rightarrow> Inl f
            | Inr pg \<Rightarrow> Inr (s\<lparr>page := pg\<rparr>))
         else Inr s)
      of
        Inl f \<Rightarrow> Inl f
      | Inr s1 \<Rightarrow>
          (case
             (if epage s1 \<le> idx s1 then
                (case nextline s1 (idx s1) of
                   Inl f \<Rightarrow> Inl f
                 | Inr pg \<Rightarrow>
                     page_back (if pg = pos s1 (ebuf s1) then ROW_MAX - 3 else ROW_MAX - 1)
                       (s1\<lparr>page := pg\<rparr>))
              else Inr s1)
           of
             Inl f \<Rightarrow> Inl f
           | Inr s2 \<Rightarrow>
               (case render ROW_MAX COL_MAX 0 0 (s2\<lparr>epage := page s2\<rparr>) of
                  Inl f \<Rightarrow> Inl f
                | Inr s3 \<Rightarrow> get_lineno s3)))"

subsection \<open>Start-up, saving and the command loop of \<open>main\<close>\<close>

text \<open>
  \<open>init_buf\<close> with an arena of \<open>BUF\<close> zero bytes, and the initial values of the
  static variables.
\<close>

definition init_buf :: "nat \<Rightarrow> state" where
  "init_buf BUF =
     \<lparr>buf = replicate BUF 0, gap = 0, egap = int BUF, idx = 0, page = 0, epage = 0,
      row = 1, col = 0, line = 1, dirty = 0, filename = None\<rparr>"

text \<open>
  The start of \<open>main\<close> up to the label \<open>out\<close>. The argument is \<open>None\<close> when the editor
  is started without a file name, and otherwise the name with the bytes of the file, or
  \<open>None\<close> for them when the file cannot be opened. \<open>read\<close> fills the arena with at most
  \<open>BUF\<close> bytes of the file and \<open>gap\<close> advances by their number.
\<close>

definition main_start :: "nat \<Rightarrow> (byte list \<times> byte list option) option \<Rightarrow> state" where
  "main_start BUF arg =
     (case arg of
        None \<Rightarrow> (init_buf BUF)\<lparr>idx := 0\<rparr>
      | Some (name, None) \<Rightarrow> (init_buf BUF)\<lparr>filename := Some name, idx := 0\<rparr>
      | Some (name, Some bytes) \<Rightarrow>
          (init_buf BUF)\<lparr>filename := Some name,
             buf := take BUF bytes @ replicate (BUF - length bytes) 0,
             gap := int (min (length bytes) BUF), idx := 0\<rparr>)"

text \<open>
  The keyboard is the list of the values that the coming calls of \<open>fgetc\<close> return. When
  the list is used up the editor waits for the next key; a function that reads keys
  returns \<open>None\<close> for the rest of the input when it is left waiting.

  \<open>message\<close> shows its text and waits for a newline or a carriage return.
\<close>

definition message :: "int list \<Rightarrow> int list option" where
  "message input =
     (case dropWhile (\<lambda>i. i \<noteq> 10 \<and> i \<noteq> 13) input of
        [] \<Rightarrow> None
      | i # rest \<Rightarrow> Some rest)"

definition isalnum :: "int \<Rightarrow> bool" where
  "isalnum ch = ((48 \<le> ch \<and> ch \<le> 57) \<or> (65 \<le> ch \<and> ch \<le> 90) \<or> (97 \<le> ch \<and> ch \<le> 122))"

text \<open>The prompt loop of \<open>get_name\<close>; the length of \<open>name\<close> is the counter \<open>j\<close>.\<close>

fun get_name_loop :: "int \<Rightarrow> byte list \<Rightarrow> int list \<Rightarrow> (byte list \<times> int list) option" where
  "get_name_loop COL_MAX name [] = None"
| "get_name_loop COL_MAX name (ch # rest) =
     (if ch = 10 \<or> ch = 13 then Some (name, rest)
      else if ch = 8 \<or> ch = 127 then
        (if length name = 0 then get_name_loop COL_MAX name rest
         else get_name_loop COL_MAX (butlast name) rest)
      else if int (length name) = COL_MAX - 6 then get_name_loop COL_MAX name rest
      else if \<not> isalnum ch \<and> ch \<noteq> 46 \<and> ch \<noteq> 95 then get_name_loop COL_MAX name rest
      else get_name_loop COL_MAX (name @ [word_of_int ch]) rest)"

definition get_name :: "int \<Rightarrow> int list \<Rightarrow> (byte list option \<times> int list) option" where
  "get_name COL_MAX input =
     (case get_name_loop COL_MAX [] input of
        None \<Rightarrow> None
      | Some (name, rest) \<Rightarrow> Some (if length name = 0 then None else Some name, rest))"

text \<open>
  \<open>save_file\<close>. \<open>opens\<close> tells whether \<open>open\<close> succeeds; the bytes written to the file
  are not part of the state. The result holds the new state and the input left.
\<close>

definition save_file :: "int \<Rightarrow> bool \<Rightarrow> int list \<Rightarrow> state \<Rightarrow> fault + (state \<times> int list option)" where
  "save_file COL_MAX opens input s =
     (case (case filename s of
              None \<Rightarrow> get_name COL_MAX input
            | Some name \<Rightarrow> Some (Some name, input))
      of
        None \<Rightarrow> Inr (s, None)
      | Some (None, rest) \<Rightarrow> Inr (s, message rest)
      | Some (Some name, rest) \<Rightarrow>
          if \<not> opens then Inr (s\<lparr>filename := Some name\<rparr>, message rest)
          else
            (case movegap (s\<lparr>filename := Some name, idx := 0\<rparr>) of
               Inl f \<Rightarrow> Inl f
             | Inr s1 \<Rightarrow> Inr (s1\<lparr>idx := idx s, dirty := 0\<rparr>, message rest)))"

lemma message_shorter: "message input = Some rest \<Longrightarrow> length rest < length input"
proof -
  assume a: "message input = Some rest"
  have "length (dropWhile (\<lambda>i. i \<noteq> 10 \<and> i \<noteq> 13) input) \<le> length input"
    by (rule length_dropWhile_le)
  with a show ?thesis
    by (auto simp: message_def split: list.splits)
qed

lemma get_name_loop_shorter:
  "get_name_loop COL_MAX name input = Some (name', rest) \<Longrightarrow> length rest < length input"
proof (induction COL_MAX name input rule: get_name_loop.induct)
  case (1 COL_MAX name)
  then show ?case by simp
next
  case (2 COL_MAX name ch rest')
  then show ?case
    by (auto split: if_splits)
qed

lemma get_name_shorter:
  "get_name COL_MAX input = Some (n, rest) \<Longrightarrow> length rest < length input"
  by (auto simp: get_name_def split: option.splits prod.splits dest: get_name_loop_shorter)

lemma save_file_shorter:
  assumes "save_file COL_MAX opens input s = Inr (s', Some rest)"
  shows "length rest < length input"
proof (cases "filename s")
  case None
  show ?thesis
  proof (cases "get_name COL_MAX input")
    case N: None
    with None assms show ?thesis by (simp add: save_file_def)
  next
    case (Some r)
    obtain n rest' where r: "r = (n, rest')" by (cases r)
    from Some r have l: "length rest' < length input" by (auto dest: get_name_shorter)
    from assms None Some r have "message rest' = Some rest"
      by (cases n) (auto simp: save_file_def split: if_splits sum.splits)
    then have "length rest < length rest'" by (rule message_shorter)
    with l show ?thesis by simp
  qed
next
  case (Some name)
  with assms have "message input = Some rest"
    by (auto simp: save_file_def split: if_splits sum.splits)
  then show ?thesis by (rule message_shorter)
qed

text \<open>
  The body of the \<open>switch\<close> in \<open>main\<close>: one key, with the keys that follow an
  \<open>ESC\<close>, and its command. The result holds the new state and the input left;
  \<open>None\<close> for the input ends the loop (\<open>ESC q\<close>, or a key that has not come).
\<close>

definition command ::
  "int \<Rightarrow> int \<Rightarrow> bool \<Rightarrow> int list \<Rightarrow> state \<Rightarrow> fault + (state \<times> int list option)" where
  "command ROW_MAX COL_MAX opens input s =
     (case input of
        [] \<Rightarrow> Inr (s, None)
      | ch # rest \<Rightarrow>
          if ch = 4 then Inr (right s, Some rest)
          else if ch = 5 then
            (case up s of Inl f \<Rightarrow> Inl f | Inr s' \<Rightarrow> Inr (s', Some rest))
          else if ch = 12 then
            (case update_display ROW_MAX COL_MAX s of Inl f \<Rightarrow> Inl f | Inr s' \<Rightarrow> Inr (s', Some rest))
          else if ch = 19 then Inr (left s, Some rest)
          else if ch = 24 then
            (case down s of Inl f \<Rightarrow> Inl f | Inr s' \<Rightarrow> Inr (s', Some rest))
          else if ch = 27 then
            (case rest of
               [] \<Rightarrow> Inr (s, None)
             | ch2 # rest2 \<Rightarrow>
                 if ch2 = 91 then
                   (case rest2 of
                      [] \<Rightarrow> Inr (s, None)
                    | ch3 # rest3 \<Rightarrow>
                        if ch3 = 65 then
                          (case up s of Inl f \<Rightarrow> Inl f | Inr s' \<Rightarrow> Inr (s', Some rest3))
                        else if ch3 = 66 then
                          (case down s of Inl f \<Rightarrow> Inl f | Inr s' \<Rightarrow> Inr (s', Some rest3))
                        else if ch3 = 67 then Inr (right s, Some rest3)
                        else if ch3 = 68 then Inr (left s, Some rest3)
                        else Inr (s, Some rest3))
                 else if ch2 = 113 then Inr (s, None)
                 else if ch2 = 115 then save_file COL_MAX opens rest2 s
                 else if ch2 = 118 then Inr (s, message rest2)
                 else Inr (s, Some rest2))
          else
            (case insert_ch s ch of Inl f \<Rightarrow> Inl f | Inr s' \<Rightarrow> Inr (s', Some rest)))"

lemma command_shorter:
  assumes "command ROW_MAX COL_MAX opens input s = Inr (s', Some rest)"
  shows "length rest < length input"
proof (cases input)
  case Nil
  with assms show ?thesis by (simp add: command_def)
next
  case (Cons ch r1)
  show ?thesis
  proof (cases "ch = 27")
    case False
    with assms Cons show ?thesis
      by (auto simp: command_def split: if_splits sum.splits)
  next
    case True
    show ?thesis
    proof (cases r1)
      case Nil
      with assms Cons True show ?thesis by (simp add: command_def)
    next
      case c2: (Cons ch2 r2)
      show ?thesis
      proof (cases "ch2 = 91")
        case True
        with assms Cons \<open>ch = 27\<close> c2 show ?thesis
          by (cases r2) (auto simp: command_def split: if_splits sum.splits)
      next
        case False
        with assms Cons \<open>ch = 27\<close> c2 show ?thesis
          by (auto simp: command_def split: if_splits dest: save_file_shorter message_shorter)
      qed
    qed
  qed
qed

text \<open>
  The loop of \<open>main\<close>: \<open>update_display\<close>, then one command. The result is the state
  in which the editor waits for a key that the input does not hold, or the state in
  which it leaves the loop after \<open>ESC q\<close>. (\<open>main\<close> enters the loop only when
  \<open>COL_MAX \<ge> 16\<close> and \<open>ROW_MAX \<ge> 2\<close>.)
\<close>

function main_loop :: "int \<Rightarrow> int \<Rightarrow> bool \<Rightarrow> int list \<Rightarrow> state \<Rightarrow> fault + state" where
  "main_loop ROW_MAX COL_MAX opens input s =
     (case update_display ROW_MAX COL_MAX s of
        Inl f \<Rightarrow> Inl f
      | Inr s1 \<Rightarrow>
          (case command ROW_MAX COL_MAX opens input s1 of
             Inl f \<Rightarrow> Inl f
           | Inr (s2, None) \<Rightarrow> Inr s2
           | Inr (s2, Some rest) \<Rightarrow> main_loop ROW_MAX COL_MAX opens rest s2))"
  by pat_completeness auto
termination
  by (relation "measure (\<lambda>(ROW_MAX, COL_MAX, opens, input, s). length input)")
     (auto dest: command_shorter)

declare main_loop.simps [simp del]

subsection \<open>Commands that leave the text alone\<close>

text \<open>
  Two states have the same text when they differ at most in the display variables
  \<open>page\<close>, \<open>epage\<close>, \<open>row\<close>, \<open>col\<close> and \<open>line\<close>.
\<close>

definition same_text :: "state \<Rightarrow> state \<Rightarrow> bool" where
  "same_text s s' =
     (buf s' = buf s \<and> gap s' = gap s \<and> egap s' = egap s \<and> idx s' = idx s \<and>
      dirty s' = dirty s \<and> filename s' = filename s)"

text \<open>A document without newline, tab and carriage return: each byte takes one cell.\<close>

definition plain_doc :: "state \<Rightarrow> bool" where
  "plain_doc s = (\<forall>c \<in> set (doc s). c \<noteq> 10 \<and> c \<noteq> 9 \<and> c \<noteq> 13)"

subsection \<open>States used as examples\<close>

text \<open>
  The editor started without a file on an arena of eight bytes, after the keys
  \<open>a b c d e\<close> and four times \<open>^S\<close> (cursor left): the cursor is at offset 1 and the
  gap still behind the text.
\<close>

definition abcde_left4 :: state where
  "abcde_left4 =
     \<lparr>buf = [97, 98, 99, 100, 101, 0, 0, 0], gap = 5, egap = 8, idx = 1, page = 0,
      epage = 5, row = 0, col = 1, line = 1, dirty = 0, filename = None\<rparr>"

text \<open>
  The editor started without a file on an arena of four bytes, after the key \<open>x\<close> four
  times: the arena is full and the gap empty.
\<close>

definition xxxx_full :: state where
  "xxxx_full =
     \<lparr>buf = [120, 120, 120, 120], gap = 4, egap = 4, idx = 4, page = 0, epage = 4,
      row = 0, col = 4, line = 1, dirty = 0, filename = None\<rparr>"

text \<open>An arena of eight bytes after the single key \<open>a\<close>.\<close>

definition typed_a :: state where
  "typed_a =
     \<lparr>buf = [97, 0, 0, 0, 0, 0, 0, 0], gap = 1, egap = 8, idx = 1, page = 0, epage = 1,
      row = 0, col = 1, line = 1, dirty = 0, filename = None\<rparr>"

text \<open>
  An arena of eight bytes after the keys newline, \<open>a\<close>, \<open>b\<close>: the document is an empty
  first line and the line \<open>ab\<close>, all of it before the gap. The second state holds the
  same document behind the gap: it is reached by three more times \<open>^S\<close>, the key \<open>x\<close>
  and a backspace.
\<close>

definition nl_ab :: state where
  "nl_ab =
     \<lparr>buf = [10, 97, 98, 0, 0, 0, 0, 0], gap = 3, egap = 8, idx = 3, page = 0, epage = 3,
      row = 1, col = 2, line = 2, dirty = 0, filename = None\<rparr>"

definition nl_ab_front :: state where
  "nl_ab_front =
     \<lparr>buf = [120, 97, 98, 0, 0, 10, 97, 98], gap = 0, egap = 5, idx = 0, page = 0, epage = 3,
      row = 0, col = 0, line = 1, dirty = 0, filename = None\<rparr>"

text \<open>
  An arena of eight bytes after the keys \<open>a\<close>, newline, \<open>^S\<close>, \<open>^S\<close>, \<open>x\<close>, \<open>^D\<close>: the document
  is \<open>xa\<close> and a newline, the cursor at offset 2, and the gap, from address 1 to 6, still
  starts with the newline that was typed there before the gap moved. The second state
  comes from the keys \<open>a\<close>, newline, \<open>b\<close>, \<open>^S\<close>, \<open>^S\<close>, backspace, \<open>^D\<close>: the document is a
  newline and \<open>b\<close>, the cursor at offset 1.
\<close>

definition x_a_nl :: state where
  "x_a_nl =
     \<lparr>buf = [120, 10, 0, 0, 0, 0, 97, 10], gap = 1, egap = 6, idx = 2, page = 0, epage = 3,
      row = 0, col = 2, line = 2, dirty = 0, filename = None\<rparr>"

definition nl_b :: state where
  "nl_b =
     \<lparr>buf = [97, 10, 98, 0, 0, 0, 10, 98], gap = 0, egap = 6, idx = 1, page = 0, epage = 2,
      row = 1, col = 0, line = 1, dirty = 0, filename = None\<rparr>"

text \<open>
  A build with \<open>ROW_MAX = 4\<close> and \<open>COL_MAX = 16\<close> (a grid of three text rows of sixteen
  cells), started on the file \<open>f\<close> that holds two lines \<open>c\<close>, a line of sixteen \<open>a\<close> and
  the line \<open>b\<close>, after twice \<open>^X\<close> (cursor down) and sixteen times \<open>^D\<close> (cursor right):
  the cursor is at offset 20, the end of the line of sixteen \<open>a\<close>.
\<close>

definition wrapped_line :: state where
  "wrapped_line =
     \<lparr>buf = [99, 10, 99, 10, 97, 97, 97, 97, 97, 97, 97, 97, 97, 97, 97, 97, 97, 97, 97, 97,
         10, 98, 0, 0, 0, 0, 0, 0, 0, 0, 0, 0],
      gap = 22, egap = 32, idx = 20, page = 0, epage = 20, row = 3, col = 0, line = 3,
      dirty = 0, filename = Some [102]\<rparr>"

section \<open>Addressing\<close>

lemma length_doc: "buf_ok s \<Longrightarrow> int (length (doc s)) = pos s (ebuf s)"
  by (auto simp: doc_def buf_ok_def pos_def ebuf_def)

lemma ptr_nonneg: "buf_ok s \<Longrightarrow> 0 \<le> ptr s offset"
  by (simp add: ptr_def buf_ok_def)

text \<open>The byte at a logical offset is the byte of the document at that index.\<close>

lemma gap_nth_left:
  "n < g \<Longrightarrow> g \<le> length xs \<Longrightarrow> (take g xs @ drop e xs) ! n = xs ! n"
  by (simp add: nth_append)

lemma gap_nth_right:
  "g \<le> n \<Longrightarrow> g \<le> length xs \<Longrightarrow> e \<le> length xs \<Longrightarrow>
   (take g xs @ drop e xs) ! n = xs ! (e + (n - g))"
  by (simp add: nth_append min_absorb2)

lemma doc_nth:
  assumes "buf_ok s" "0 \<le> offset" "offset < pos s (ebuf s)"
  shows "buf s ! nat (ptr s offset) = doc s ! nat offset"
proof (cases "offset < gap s")
  case True
  with assms have a: "nat offset < nat (gap s)" "nat (gap s) \<le> length (buf s)"
    by (auto simp: buf_ok_def ebuf_def)
  from True assms(2) have "ptr s offset = offset" by (simp add: ptr_def)
  then show ?thesis unfolding doc_def gap_nth_left [OF a] by simp
next
  case False
  with assms have a: "nat (gap s) \<le> nat offset" "nat (gap s) \<le> length (buf s)"
    "nat (egap s) \<le> length (buf s)"
    by (auto simp: buf_ok_def ebuf_def)
  from False assms have n: "nat (egap s) + (nat offset - nat (gap s)) = nat (offset + (egap s - gap s))"
    by (auto simp: buf_ok_def)
  from False assms(2) have "ptr s offset = offset + (egap s - gap s)" by (simp add: ptr_def)
  then show ?thesis unfolding doc_def gap_nth_right [OF a] n by simp
qed

text \<open>
  C1. In a state with \<open>buf \<le> gap \<le> egap \<le> ebuf\<close>, \<open>pos (ptr o) = o\<close> for every
  logical offset \<open>o\<close> from 0 to the document length \<open>pos(ebuf)\<close>, and
  \<open>ptr (pos a) = a\<close> for every address \<open>a\<close> from \<open>buf\<close> to \<open>ebuf\<close> that is not inside
  the gap \<open>[gap, egap)\<close>.
\<close>

theorem address_inverse_law:
  assumes "buf_ok s"
  shows "(\<forall>offset. 0 \<le> offset \<and> offset \<le> pos s (ebuf s) \<longrightarrow> pos s (ptr s offset) = offset) \<and>
         (\<forall>a. 0 \<le> a \<and> a \<le> ebuf s \<and> \<not> (gap s \<le> a \<and> a < egap s) \<longrightarrow> ptr s (pos s a) = a)"
  using assms by (auto simp: buf_ok_def ptr_def pos_def)

text \<open>
  The law at a state with the gap inside the text (\<open>gap = buf + 1\<close>, \<open>egap = buf + 6\<close>,
  document \<open>xa\<close> and a newline): logical offset 2 lies behind the gap, address 6 is the
  first byte of the suffix.
\<close>

theorem address_inverse_law_witness:
  "buf_ok x_a_nl \<and> pos x_a_nl (ptr x_a_nl 2) = 2 \<and> ptr x_a_nl (pos x_a_nl 6) = 6"
  using address_inverse_law [of x_a_nl]
  by (simp add: x_a_nl_def buf_ok_def ebuf_def pos_def ptr_def)

section \<open>Gap relocation\<close>

lemma abcde_left4_reached:
  "main_loop 24 80 True [97, 98, 99, 100, 101, 19, 19, 19, 19] (main_start 8 None) = Inr abcde_left4"
  by code_simp

lemma abcde_left4_ok: "state_ok abcde_left4"
  by (simp add: abcde_left4_def state_ok_def buf_ok_def pos_def ebuf_def)

lemma shift_left:
  assumes "g \<le> e" "e < length xs"
  shows "take g (xs[e := xs ! g]) @ drop e (xs[e := xs ! g]) = take (Suc g) xs @ drop (Suc e) xs"
proof -
  have a: "take g (xs[e := xs ! g]) = take g xs"
    using assms by simp
  have "(xs[e := xs ! g]) ! e # drop (Suc e) (xs[e := xs ! g]) = drop e (xs[e := xs ! g])"
    using assms by (intro Cons_nth_drop_Suc) simp
  then have b: "drop e (xs[e := xs ! g]) = xs ! g # drop (Suc e) xs"
    using assms by simp
  have c: "take (Suc g) xs = take g xs @ [xs ! g]"
    using assms by (simp add: take_Suc_conv_app_nth)
  show ?thesis by (simp add: a b c)
qed

lemma shift_right:
  assumes "g \<le> e" "e < length xs"
  shows "take (Suc g) (xs[g := xs ! e]) @ drop (Suc e) (xs[g := xs ! e]) = take g xs @ drop e xs"
proof -
  have "take (Suc g) (xs[g := xs ! e]) = take g (xs[g := xs ! e]) @ [(xs[g := xs ! e]) ! g]"
    using assms by (intro take_Suc_conv_app_nth) simp
  then have a: "take (Suc g) (xs[g := xs ! e]) = take g xs @ [xs ! e]"
    using assms by simp
  have b: "drop (Suc e) (xs[g := xs ! e]) = drop (Suc e) xs"
    using assms by simp
  have c: "drop e xs = xs ! e # drop (Suc e) xs"
    using assms by (simp add: Cons_nth_drop_Suc)
  show ?thesis by (simp add: a b c)
qed

lemma movegap_back_ok:
  "buf_ok s \<Longrightarrow> 0 \<le> p \<Longrightarrow> p \<le> gap s \<Longrightarrow>
   \<exists>b. movegap_back p s = Inr (s\<lparr>buf := b, gap := p, egap := egap s - (gap s - p)\<rparr>) \<and>
       length b = length (buf s) \<and>
       take (nat p) b @ drop (nat (egap s - (gap s - p))) b = doc s"
proof (induction p s rule: movegap_back.induct)
  case (1 p s)
  show ?case
  proof (cases "p < gap s")
    case False
    with "1.prems" have "p = gap s" by simp
    then show ?thesis
      by (subst movegap_back.simps) (simp add: doc_def exI [of _ "buf s"])
  next
    case True
    from True "1.prems" have g: "0 < gap s" "gap s \<le> egap s" "egap s \<le> ebuf s"
      by (auto simp: buf_ok_def)
    define v where "v = buf s ! nat (gap s - 1)"
    define s' where "s' = s\<lparr>buf := (buf s)[nat (egap s - 1) := v]\<rparr>"
    define s2 where "s2 = s'\<lparr>gap := gap s - 1, egap := egap s - 1\<rparr>"
    have ld: "load s (gap s - 1) = Inr v"
      using g by (simp add: load_def v_def)
    have st: "store s (egap s - 1) v = Inr s'"
      using g by (simp add: store_def s'_def)
    have ok2: "buf_ok s2"
      using g by (simp add: buf_ok_def s2_def s'_def ebuf_def)
    have p2: "p \<le> gap s2" using True by (simp add: s2_def)
    from "1.IH" [OF True ld st, folded s2_def, OF ok2 "1.prems"(2) p2]
    obtain b where b: "movegap_back p s2 = Inr (s2\<lparr>buf := b, gap := p, egap := egap s2 - (gap s2 - p)\<rparr>)"
      "length b = length (buf s2)"
      "take (nat p) b @ drop (nat (egap s2 - (gap s2 - p))) b = doc s2"
      by blast
    have step: "movegap_back p s = movegap_back p s2"
      using True ld st by (subst movegap_back.simps) (simp add: s2_def)
    have d: "doc s2 = doc s"
    proof -
      have n: "nat (gap s) = Suc (nat (gap s - 1))" "nat (egap s) = Suc (nat (egap s - 1))"
        using g by auto
      have "nat (gap s - 1) \<le> nat (egap s - 1)" "nat (egap s - 1) < length (buf s)"
        using g by (auto simp: ebuf_def)
      from shift_left [OF this] show ?thesis
        by (simp add: doc_def s2_def s'_def v_def n)
    qed
    have e2: "egap s2 - (gap s2 - p) = egap s - (gap s - p)" "length (buf s2) = length (buf s)"
      by (simp_all add: s2_def s'_def)
    have r1: "movegap_back p s = Inr (s\<lparr>buf := b, gap := p, egap := egap s - (gap s - p)\<rparr>)"
      unfolding step b(1) by (simp add: s2_def s'_def)
    have r2: "length b = length (buf s)"
      using b(2) by (simp add: e2)
    have r3: "take (nat p) b @ drop (nat (egap s - (gap s - p))) b = doc s"
      using b(3) by (simp add: e2 d)
    from r1 r2 r3 show ?thesis by blast
  qed
qed

lemma movegap_fwd_ok:
  "buf_ok s \<Longrightarrow> egap s \<le> p \<Longrightarrow> p \<le> ebuf s \<Longrightarrow>
   \<exists>b. movegap_fwd p s = Inr (s\<lparr>buf := b, gap := gap s + (p - egap s), egap := p\<rparr>) \<and>
       length b = length (buf s) \<and>
       take (nat (gap s + (p - egap s))) b @ drop (nat p) b = doc s"
proof (induction p s rule: movegap_fwd.induct)
  case (1 p s)
  show ?case
  proof (cases "egap s < p")
    case False
    with "1.prems" have "p = egap s" by simp
    then show ?thesis
      by (subst movegap_fwd.simps) (simp add: doc_def exI [of _ "buf s"])
  next
    case True
    from True "1.prems" have g: "0 \<le> gap s" "gap s \<le> egap s" "egap s < ebuf s"
      by (auto simp: buf_ok_def)
    define v where "v = buf s ! nat (egap s)"
    define s' where "s' = s\<lparr>buf := (buf s)[nat (gap s) := v]\<rparr>"
    define s2 where "s2 = s'\<lparr>gap := gap s + 1, egap := egap s + 1\<rparr>"
    have ld: "load s (egap s) = Inr v"
      using g by (simp add: load_def v_def)
    have st: "store s (gap s) v = Inr s'"
      using g by (simp add: store_def s'_def)
    have ok2: "buf_ok s2"
      using g by (simp add: buf_ok_def s2_def s'_def ebuf_def)
    have p2: "egap s2 \<le> p" using True by (simp add: s2_def)
    have p3: "p \<le> ebuf s2" using "1.prems" by (simp add: s2_def s'_def ebuf_def)
    from "1.IH" [OF True ld st, folded s2_def, OF ok2 p2 p3]
    obtain b where b: "movegap_fwd p s2 = Inr (s2\<lparr>buf := b, gap := gap s2 + (p - egap s2), egap := p\<rparr>)"
      "length b = length (buf s2)"
      "take (nat (gap s2 + (p - egap s2))) b @ drop (nat p) b = doc s2"
      by blast
    have step: "movegap_fwd p s = movegap_fwd p s2"
      using True ld st by (subst movegap_fwd.simps) (simp add: s2_def)
    have d: "doc s2 = doc s"
    proof -
      have n: "nat (gap s + 1) = Suc (nat (gap s))" "nat (egap s + 1) = Suc (nat (egap s))"
        using g by auto
      have "nat (gap s) \<le> nat (egap s)" "nat (egap s) < length (buf s)"
        using g by (auto simp: ebuf_def)
      from shift_right [OF this] show ?thesis
        by (simp add: doc_def s2_def s'_def v_def n)
    qed
    have e2: "gap s2 + (p - egap s2) = gap s + (p - egap s)" "length (buf s2) = length (buf s)"
      by (simp_all add: s2_def s'_def)
    have r1: "movegap_fwd p s = Inr (s\<lparr>buf := b, gap := gap s + (p - egap s), egap := p\<rparr>)"
      unfolding step b(1) by (simp add: s2_def s'_def)
    have r2: "length b = length (buf s)"
      using b(2) by (simp add: e2)
    have r3: "take (nat (gap s + (p - egap s))) b @ drop (nat p) b = doc s"
      using b(3) by (simp add: e2 d)
    from r1 r2 r3 show ?thesis by blast
  qed
qed


lemma movegap_ok:
  assumes "state_ok s"
  shows "\<exists>b. movegap s = Inr (s\<lparr>buf := b, gap := idx s, egap := idx s + (egap s - gap s)\<rparr>) \<and>
             length b = length (buf s) \<and>
             take (nat (idx s)) b @ drop (nat (idx s + (egap s - gap s))) b = doc s"
proof (cases "idx s < gap s")
  case True
  from assms have ok: "buf_ok s" "0 \<le> idx s" by (simp_all add: state_ok_def)
  from True ok have p: "ptr s (idx s) = idx s" by (simp add: ptr_def)
  have le: "idx s \<le> gap s" using True by simp
  from movegap_back_ok [OF ok(1) ok(2) le]
  obtain b where b: "movegap_back (idx s) s = Inr (s\<lparr>buf := b, gap := idx s, egap := egap s - (gap s - idx s)\<rparr>)"
      "length b = length (buf s)"
      "take (nat (idx s)) b @ drop (nat (egap s - (gap s - idx s))) b = doc s"
    by blast
  define s1 where "s1 = s\<lparr>buf := b, gap := idx s, egap := egap s - (gap s - idx s)\<rparr>"
  have f: "movegap_fwd (idx s) s1 = Inr s1"
    using ok by (subst movegap_fwd.simps) (simp add: s1_def buf_ok_def)
  have e: "egap s - (gap s - idx s) = idx s + (egap s - gap s)" by simp
  have "movegap s = Inr (s1\<lparr>idx := pos s1 (egap s1)\<rparr>)"
    using b(1) f by (simp add: movegap_def p s1_def [symmetric])
  also have "s1\<lparr>idx := pos s1 (egap s1)\<rparr> = s\<lparr>buf := b, gap := idx s, egap := idx s + (egap s - gap s)\<rparr>"
    by (simp add: s1_def pos_def)
  finally have r1: "movegap s = Inr (s\<lparr>buf := b, gap := idx s, egap := idx s + (egap s - gap s)\<rparr>)" .
  have r3: "take (nat (idx s)) b @ drop (nat (idx s + (egap s - gap s))) b = doc s"
    using b(3) by (simp add: e)
  from r1 b(2) r3 show ?thesis by blast
next
  case False
  from assms have ok: "buf_ok s" "0 \<le> idx s" "idx s \<le> pos s (ebuf s)"
    by (simp_all add: state_ok_def)
  define p where "p = idx s + (egap s - gap s)"
  from False ok have pp: "ptr s (idx s) = p" by (simp add: ptr_def p_def)
  have bk: "movegap_back p s = Inr s"
    using False ok by (subst movegap_back.simps) (simp add: p_def buf_ok_def)
  have r: "egap s \<le> p" "p \<le> ebuf s"
    using False ok by (auto simp: p_def pos_def buf_ok_def split: if_splits)
  from movegap_fwd_ok [OF ok(1) r]
  obtain b where b: "movegap_fwd p s = Inr (s\<lparr>buf := b, gap := gap s + (p - egap s), egap := p\<rparr>)"
      "length b = length (buf s)"
      "take (nat (gap s + (p - egap s))) b @ drop (nat p) b = doc s"
    by blast
  have e: "gap s + (p - egap s) = idx s" by (simp add: p_def)
  have r1: "movegap s = Inr (s\<lparr>buf := b, gap := idx s, egap := p\<rparr>)"
    using b(1) bk by (simp add: movegap_def pp e pos_def)
  have r3: "take (nat (idx s)) b @ drop (nat p) b = doc s"
    using b(3) by (simp add: e)
  from r1 b(2) r3 show ?thesis unfolding p_def by blast
qed


lemma movegap_noop: 
  assumes "buf_ok s" "idx s = gap s"
  shows "movegap s = Inr s"
proof -
  from assms have p: "ptr s (idx s) = egap s" by (simp add: ptr_def buf_ok_def)
  have b: "movegap_back (egap s) s = Inr s"
    using assms by (subst movegap_back.simps) (simp add: buf_ok_def)
  have f: "movegap_fwd (egap s) s = Inr s"
    by (subst movegap_fwd.simps) simp
  have i: "s\<lparr>idx := pos s (egap s)\<rparr> = s"
    using assms by (simp add: pos_def)
  show ?thesis by (simp add: movegap_def p b f i)
qed

text \<open>
  C2. In a state with \<open>buf \<le> gap \<le> egap \<le> ebuf\<close> and the cursor \<open>idx\<close> between 0 and
  the document length, \<open>movegap\<close> returns without a fault, and the document and its
  length \<open>pos(ebuf)\<close> are the same afterwards, the gap starts at the cursor and the
  cursor has not moved; when the cursor is at the gap already (\<open>idx = gap - buf\<close>) the
  whole state is unchanged.
\<close>

theorem movegap_preserves_document:
  assumes "state_ok s"
  shows "\<exists>s'. movegap s = Inr s' \<and> doc s' = doc s \<and> pos s' (ebuf s') = pos s (ebuf s) \<and>
              gap s' = idx s \<and> idx s' = idx s \<and> (idx s = gap s \<longrightarrow> s' = s)"
proof -
  from movegap_ok [OF assms]
  obtain b where b: "movegap s = Inr (s\<lparr>buf := b, gap := idx s, egap := idx s + (egap s - gap s)\<rparr>)"
      "length b = length (buf s)"
      "take (nat (idx s)) b @ drop (nat (idx s + (egap s - gap s))) b = doc s"
    by blast
  define s' where "s' = s\<lparr>buf := b, gap := idx s, egap := idx s + (egap s - gap s)\<rparr>"
  have d: "doc s' = doc s" using b(3) by (simp add: s'_def doc_def)
  have l: "pos s' (ebuf s') = pos s (ebuf s)"
    using assms b(2) by (auto simp: s'_def pos_def ebuf_def state_ok_def buf_ok_def)
  have g: "gap s' = idx s" "idx s' = idx s" by (simp_all add: s'_def)
  have n: "idx s = gap s \<longrightarrow> s' = s"
    using movegap_noop [of s] assms b(1) by (simp add: state_ok_def s'_def)
  from b(1) d l g n show ?thesis unfolding s'_def by blast
qed

theorem movegap_preserves_document_witness:
  "state_ok abcde_left4 \<and>
   (\<exists>s'. movegap abcde_left4 = Inr s' \<and> doc s' = [97, 98, 99, 100, 101] \<and>
      pos s' (ebuf s') = 5 \<and> gap s' = 1 \<and> idx s' = 1)"
proof -
  have d: "doc abcde_left4 = [97, 98, 99, 100, 101]" "pos abcde_left4 (ebuf abcde_left4) = 5"
    "idx abcde_left4 = 1"
    by (simp_all add: abcde_left4_def doc_def pos_def ebuf_def)
  from movegap_preserves_document [OF abcde_left4_ok] abcde_left4_ok show ?thesis
    by (auto simp: d)
qed

section \<open>Insertion and deletion\<close>

lemma state_ok_bounds:
  assumes "state_ok s"
  shows "0 \<le> gap s" "gap s \<le> egap s" "egap s \<le> int (length (buf s))" "0 \<le> idx s"
    "idx s + (egap s - gap s) \<le> int (length (buf s))"
  using assms by (auto simp: state_ok_def buf_ok_def pos_def ebuf_def split: if_splits)

lemma insert_ch_delete:
  assumes "state_ok s" "ch = 8 \<or> ch = 127"
  shows "\<exists>b. movegap s = Inr (s\<lparr>buf := b, gap := idx s, egap := idx s + (egap s - gap s)\<rparr>) \<and>
          insert_ch s ch =
            Inr (s\<lparr>buf := b, gap := (if 0 < idx s then idx s - 1 else idx s),
                   egap := idx s + (egap s - gap s),
                   idx := (if 0 < idx s then idx s - 1 else idx s)\<rparr>) \<and>
          length b = length (buf s) \<and>
          take (nat (idx s)) b @ drop (nat (idx s + (egap s - gap s))) b = doc s"
proof -
  from movegap_ok [OF assms(1)]
  obtain b where b: "movegap s = Inr (s\<lparr>buf := b, gap := idx s, egap := idx s + (egap s - gap s)\<rparr>)"
      "length b = length (buf s)"
      "take (nat (idx s)) b @ drop (nat (idx s + (egap s - gap s))) b = doc s"
    by blast
  have "insert_ch s ch =
            Inr (s\<lparr>buf := b, gap := (if 0 < idx s then idx s - 1 else idx s),
                   egap := idx s + (egap s - gap s),
                   idx := (if 0 < idx s then idx s - 1 else idx s)\<rparr>)"
    using assms(2) state_ok_bounds [OF assms(1)]
    by (auto simp: insert_ch_def b(1) pos_def)
  with b show ?thesis by blast
qed

lemma insert_ch_full:
  assumes "state_ok s" "ch \<noteq> 8" "ch \<noteq> 127" "gap s = egap s"
  shows "\<exists>b. insert_ch s ch = Inr (s\<lparr>buf := b, gap := idx s, egap := idx s\<rparr>) \<and>
          length b = length (buf s) \<and> take (nat (idx s)) b @ drop (nat (idx s)) b = doc s"
proof -
  from movegap_ok [OF assms(1)]
  obtain b where b: "movegap s = Inr (s\<lparr>buf := b, gap := idx s, egap := idx s + (egap s - gap s)\<rparr>)"
      "length b = length (buf s)"
      "take (nat (idx s)) b @ drop (nat (idx s + (egap s - gap s))) b = doc s"
    by blast
  have "insert_ch s ch = Inr (s\<lparr>buf := b, gap := idx s, egap := idx s\<rparr>)"
    using assms(2-4) by (simp add: insert_ch_def b(1) pos_def)
  with b(2,3) assms(4) show ?thesis by auto
qed

lemma insert_ch_store:
  assumes "state_ok s" "ch \<noteq> 8" "ch \<noteq> 127" "gap s < egap s"
  shows "\<exists>b. insert_ch s ch =
            Inr (s\<lparr>buf := b, gap := idx s + 1, egap := idx s + (egap s - gap s), idx := idx s + 1\<rparr>) \<and>
          length b = length (buf s) \<and>
          b ! nat (idx s) = word_of_int (if ch = 13 then 10 else ch) \<and>
          take (nat (idx s)) b @ drop (nat (idx s + (egap s - gap s))) b = doc s"
proof -
  from movegap_ok [OF assms(1)]
  obtain b where b: "movegap s = Inr (s\<lparr>buf := b, gap := idx s, egap := idx s + (egap s - gap s)\<rparr>)"
      "length b = length (buf s)"
      "take (nat (idx s)) b @ drop (nat (idx s + (egap s - gap s))) b = doc s"
    by blast
  note bd = state_ok_bounds [OF assms(1)]
  define v :: byte where "v = word_of_int (if ch = 13 then 10 else ch)"
  define b' where "b' = b[nat (idx s) := v]"
  have lt: "nat (idx s) < length b" using bd assms(4) b(2) by auto
  have "insert_ch s ch =
            Inr (s\<lparr>buf := b', gap := idx s + 1, egap := idx s + (egap s - gap s), idx := idx s + 1\<rparr>)"
    using assms(2-4) bd b(2)
    by (simp add: insert_ch_def b(1) pos_def store_def ebuf_def b'_def v_def)
  moreover have "length b' = length (buf s)" by (simp add: b'_def b(2))
  moreover have "b' ! nat (idx s) = v" using lt by (simp add: b'_def)
  moreover have "take (nat (idx s)) b' @ drop (nat (idx s + (egap s - gap s))) b' = doc s"
    using b(3) assms(4) bd by (simp add: b'_def)
  ultimately show ?thesis unfolding v_def by blast
qed



lemma xxxx_full_reached:
  "main_loop 24 80 True [120, 120, 120, 120] (main_start 4 None) = Inr xxxx_full"
  by code_simp

lemma xxxx_full_ok: "state_ok xxxx_full"
  by (simp add: xxxx_full_def state_ok_def buf_ok_def pos_def ebuf_def)

lemma doc_eq_parts:
  assumes "take i b @ drop e b = d" "i \<le> length b"
  shows "take i d = take i b" "drop i d = drop e b"
  using assms by auto

text \<open>
  C5. In a well-formed state whose document fills the arena (\<open>pos(ebuf)\<close> is the size of
  the arena, so the gap is empty), \<open>insert\<close> of a key that is not a backspace or DEL
  returns without a fault and leaves the document, its length and the cursor as they
  were. (Backspace and DEL are the keys that \<open>insert\<close> treats as the backward delete.)
\<close>

theorem insert_full_dropped:
  assumes "state_ok s" "pos s (ebuf s) = ebuf s" "ch \<noteq> 8" "ch \<noteq> 127"
  shows "\<exists>s'. insert_ch s ch = Inr s' \<and> doc s' = doc s \<and>
              pos s' (ebuf s') = pos s (ebuf s) \<and> idx s' = idx s"
proof -
  note bd = state_ok_bounds [OF assms(1)]
  from assms(1,2) have full: "gap s = egap s"
    by (auto simp: state_ok_def buf_ok_def pos_def split: if_splits)
  from insert_ch_full [OF assms(1) assms(3) assms(4) full]
  obtain b where b: "insert_ch s ch = Inr (s\<lparr>buf := b, gap := idx s, egap := idx s\<rparr>)"
      "length b = length (buf s)" "take (nat (idx s)) b @ drop (nat (idx s)) b = doc s"
    by blast
  define s' where "s' = s\<lparr>buf := b, gap := idx s, egap := idx s\<rparr>"
  have "doc s' = take (nat (idx s)) b @ drop (nat (idx s)) b"
    by (simp add: s'_def doc_def)
  then have "doc s' = doc s" by (simp only: b(3))
  moreover have "pos s' (ebuf s') = pos s (ebuf s)"
    using b(2) full bd by (simp add: s'_def pos_def ebuf_def)
  moreover have "idx s' = idx s" by (simp add: s'_def)
  ultimately show ?thesis using b(1) unfolding s'_def by blast
qed

theorem insert_full_dropped_witness:
  "state_ok xxxx_full \<and> pos xxxx_full (ebuf xxxx_full) = ebuf xxxx_full \<and>
   (\<exists>s'. insert_ch xxxx_full 121 = Inr s' \<and> doc s' = doc xxxx_full \<and>
      pos s' (ebuf s') = pos xxxx_full (ebuf xxxx_full) \<and> idx s' = idx xxxx_full)"
proof -
  have h: "pos xxxx_full (ebuf xxxx_full) = ebuf xxxx_full"
    by (simp add: xxxx_full_def pos_def ebuf_def)
  from insert_full_dropped [OF xxxx_full_ok h, of 121] xxxx_full_ok h show ?thesis by simp
qed

text \<open>
  C6, as amended. In a well-formed state with at least one free byte (the document is
  shorter than the arena), \<open>insert\<close> of a key that is not a backspace or DEL moves the
  cursor from \<open>o\<close> to \<open>o + 1\<close>, and a backspace or DEL after it gives back the document
  and the cursor \<open>o\<close>.
\<close>

theorem insert_then_delete_restores:
  assumes "state_ok s" "pos s (ebuf s) < ebuf s" "ch \<noteq> 8" "ch \<noteq> 127" "del = 8 \<or> del = 127"
  shows "\<exists>s1 s2. insert_ch s ch = Inr s1 \<and> idx s1 = idx s + 1 \<and>
                 insert_ch s1 del = Inr s2 \<and> doc s2 = doc s \<and> idx s2 = idx s"
proof -
  note bd = state_ok_bounds [OF assms(1)]
  from assms(1,2) have free: "gap s < egap s"
    by (auto simp: state_ok_def buf_ok_def pos_def split: if_splits)
  from insert_ch_store [OF assms(1) assms(3) assms(4) free]
  obtain b where b: "insert_ch s ch =
        Inr (s\<lparr>buf := b, gap := idx s + 1, egap := idx s + (egap s - gap s), idx := idx s + 1\<rparr>)"
      "length b = length (buf s)"
      "take (nat (idx s)) b @ drop (nat (idx s + (egap s - gap s))) b = doc s"
    by blast
  define s1 where
    "s1 = s\<lparr>buf := b, gap := idx s + 1, egap := idx s + (egap s - gap s), idx := idx s + 1\<rparr>"
  have ok1: "buf_ok s1" "idx s1 = gap s1"
    using bd free b(2) by (simp_all add: s1_def buf_ok_def ebuf_def)
  have m: "movegap s1 = Inr s1" by (rule movegap_noop [OF ok1])
  define s2 where "s2 = s1\<lparr>gap := idx s, idx := idx s\<rparr>"
  have g1: "gap s1 = idx s + 1" by (simp add: s1_def)
  have "insert_ch s1 del = Inr ((s1\<lparr>gap := gap s1 - 1\<rparr>)\<lparr>idx := pos (s1\<lparr>gap := gap s1 - 1\<rparr>) (egap (s1\<lparr>gap := gap s1 - 1\<rparr>))\<rparr>)"
    unfolding insert_ch_def m using assms(5) bd by (auto simp: g1)
  also have "(s1\<lparr>gap := gap s1 - 1\<rparr>)\<lparr>idx := pos (s1\<lparr>gap := gap s1 - 1\<rparr>) (egap (s1\<lparr>gap := gap s1 - 1\<rparr>))\<rparr> = s2"
    by (simp add: s2_def s1_def pos_def)
  finally have "insert_ch s1 del = Inr s2" .
  moreover have "doc s2 = take (nat (idx s)) b @ drop (nat (idx s + (egap s - gap s))) b"
    by (simp add: s2_def s1_def doc_def)
  then have "doc s2 = doc s" by (simp only: b(3))
  moreover have "idx s2 = idx s" "idx s1 = idx s + 1" by (simp_all add: s2_def s1_def)
  ultimately show ?thesis using b(1) unfolding s1_def [symmetric] by blast
qed

theorem insert_then_delete_restores_witness:
  "state_ok abcde_left4 \<and> pos abcde_left4 (ebuf abcde_left4) < ebuf abcde_left4 \<and>
   (\<exists>s1 s2. insert_ch abcde_left4 120 = Inr s1 \<and> idx s1 = idx abcde_left4 + 1 \<and>
                 insert_ch s1 8 = Inr s2 \<and> doc s2 = doc abcde_left4 \<and> idx s2 = idx abcde_left4)"
proof -
  have h: "pos abcde_left4 (ebuf abcde_left4) < ebuf abcde_left4"
    by (simp add: abcde_left4_def pos_def ebuf_def)
  from insert_then_delete_restores [OF abcde_left4_ok h, of 120 8] abcde_left4_ok h
  show ?thesis by simp
qed

text \<open>
  C6 as stated, for every reachable state, fails when the arena is full: after four keys
  \<open>x\<close> on an arena of four bytes the key \<open>y\<close> is dropped, the cursor stays at 4, and the
  backspace that follows removes the last \<open>x\<close>.
\<close>

theorem insert_then_delete_full_counterexample:
  "main_loop 24 80 True [120, 120, 120, 120] (main_start 4 None) = Inr xxxx_full \<and>
   doc xxxx_full = [120, 120, 120, 120] \<and>
   insert_ch xxxx_full 121 = Inr xxxx_full \<and>
   insert_ch xxxx_full 8 = Inr (xxxx_full\<lparr>gap := 3, idx := 3\<rparr>) \<and>
   doc (xxxx_full\<lparr>gap := 3, idx := 3\<rparr>) = [120, 120, 120]"
  by code_simp

text \<open>
  C10. In a well-formed state, \<open>insert\<close> of a backspace (8) or DEL (127) returns without
  a fault; the arena is the one \<open>movegap\<close> left, so no byte is stored, and \<open>egap\<close> is
  unchanged. With the cursor behind offset 0, \<open>gap\<close> goes back by one, the cursor too,
  and the document loses the byte before the cursor; with the cursor at offset 0 the
  state is the one \<open>movegap\<close> left and the document is unchanged.
\<close>

theorem insert_backspace_deletes:
  assumes "state_ok s" "ch = 8 \<or> ch = 127"
  shows "\<exists>m s'. movegap s = Inr m \<and> insert_ch s ch = Inr s' \<and>
           buf s' = buf m \<and> egap s' = egap m \<and>
           (0 < idx s \<longrightarrow>
              gap s' = gap m - 1 \<and> idx s' = idx s - 1 \<and>
              doc s' = take (nat (idx s - 1)) (doc s) @ drop (nat (idx s)) (doc s)) \<and>
           (idx s = 0 \<longrightarrow> s' = m \<and> doc s' = doc s)"
proof -
  note bd = state_ok_bounds [OF assms(1)]
  from insert_ch_delete [OF assms]
  obtain b where b: "movegap s = Inr (s\<lparr>buf := b, gap := idx s, egap := idx s + (egap s - gap s)\<rparr>)"
      "insert_ch s ch =
            Inr (s\<lparr>buf := b, gap := (if 0 < idx s then idx s - 1 else idx s),
                   egap := idx s + (egap s - gap s),
                   idx := (if 0 < idx s then idx s - 1 else idx s)\<rparr>)"
      "length b = length (buf s)"
      "take (nat (idx s)) b @ drop (nat (idx s + (egap s - gap s))) b = doc s"
    by blast
  define m where "m = s\<lparr>buf := b, gap := idx s, egap := idx s + (egap s - gap s)\<rparr>"
  define s' where "s' = s\<lparr>buf := b, gap := (if 0 < idx s then idx s - 1 else idx s),
                   egap := idx s + (egap s - gap s),
                   idx := (if 0 < idx s then idx s - 1 else idx s)\<rparr>"
  have le: "nat (idx s) \<le> length b" using bd b(3) by auto
  note parts = doc_eq_parts [OF b(4) le]
  have t: "take (nat (idx s - 1)) (doc s) = take (nat (idx s - 1)) b"
  proof -
    have k: "nat (idx s - 1) \<le> nat (idx s)" by simp
    have "take (nat (idx s - 1)) (doc s) = take (nat (idx s - 1)) (take (nat (idx s)) (doc s))"
      using k by (simp add: min_absorb1)
    also have "\<dots> = take (nat (idx s - 1)) (take (nat (idx s)) b)"
      by (simp only: parts(1))
    also have "\<dots> = take (nat (idx s - 1)) b"
      using k by (simp add: min_absorb1)
    finally show ?thesis .
  qed
  have 1: "buf s' = buf m" "egap s' = egap m" by (simp_all add: s'_def m_def)
  have 2: "0 < idx s \<longrightarrow>
              gap s' = gap m - 1 \<and> idx s' = idx s - 1 \<and>
              doc s' = take (nat (idx s - 1)) (doc s) @ drop (nat (idx s)) (doc s)"
    by (simp add: t parts(2)) (simp add: s'_def m_def doc_def)
  have "idx s = 0 \<longrightarrow> doc s' = take (nat (idx s)) b @ drop (nat (idx s + (egap s - gap s))) b"
    by (simp add: s'_def doc_def)
  then have 3: "idx s = 0 \<longrightarrow> s' = m \<and> doc s' = doc s"
    unfolding b(4) by (simp add: s'_def m_def)
  from b(1,2) 1 2 3 show ?thesis unfolding m_def [symmetric] s'_def [symmetric] by blast
qed

theorem insert_backspace_deletes_witness:
  "state_ok abcde_left4 \<and>
   (\<exists>m s'. movegap abcde_left4 = Inr m \<and> insert_ch abcde_left4 127 = Inr s' \<and>
           buf s' = buf m \<and> egap s' = egap m \<and>
           (0 < idx abcde_left4 \<longrightarrow>
              gap s' = gap m - 1 \<and> idx s' = idx abcde_left4 - 1 \<and>
              doc s' = take (nat (idx abcde_left4 - 1)) (doc abcde_left4) @
                       drop (nat (idx abcde_left4)) (doc abcde_left4)) \<and>
           (idx abcde_left4 = 0 \<longrightarrow> s' = m \<and> doc s' = doc abcde_left4))"
  using insert_backspace_deletes [OF abcde_left4_ok, of 127] abcde_left4_ok by simp

section \<open>The editor stays inside the arena\<close>

text \<open>
  In a well-formed state the line searches, \<open>adjust\<close> and the display read inside the
  arena only, and they return offsets between 0 and the document length.
\<close>

lemma ptr_inside:
  assumes "buf_ok s" "0 \<le> offset"
  shows "ptr s offset < ebuf s \<longleftrightarrow> offset < pos s (ebuf s)"
  using assms by (auto simp: buf_ok_def ptr_def pos_def)

lemma load_inside:
  assumes "buf_ok s" "ptr s offset < ebuf s"
  shows "\<exists>c. load s (ptr s offset) = Inr c"
  using assms ptr_nonneg [OF assms(1), of offset] by (simp add: load_def)

lemma pos_ebuf_nonneg: "buf_ok s \<Longrightarrow> 0 \<le> pos s (ebuf s)"
  by (auto simp: buf_ok_def pos_def)

lemma prevline_ok:
  "buf_ok s \<Longrightarrow> offset \<le> pos s (ebuf s) \<Longrightarrow>
   \<exists>r. prevline s offset = Inr r \<and> 0 \<le> r \<and> r \<le> max 0 offset"
proof (induction s offset rule: prevline.induct)
  case (1 s offset)
  show ?case
  proof (cases "0 < ptr s (offset - 1)")
    case False
    then show ?thesis by (subst prevline.simps) simp
  next
    case True
    then have nn: "0 \<le> offset - 1" by (auto simp: ptr_def split: if_splits)
    with "1.prems" have "ptr s (offset - 1) < ebuf s"
      by (simp add: ptr_inside)
    from load_inside [OF "1.prems"(1) this]
    obtain c where c: "load s (ptr s (offset - 1)) = Inr c" by blast
    show ?thesis
    proof (cases "c = 10")
      case True
      with \<open>0 < ptr s (offset - 1)\<close> c nn show ?thesis
        by (subst prevline.simps) simp
    next
      case False
      from "1.IH" [OF True c False "1.prems"(1)] "1.prems"(2)
      obtain r where "prevline s (offset - 1) = Inr r" "0 \<le> r" "r \<le> max 0 (offset - 1)"
        by auto
      with True c False show ?thesis
        by (subst prevline.simps) auto
    qed
  qed
qed

lemma nextline_ok:
  "buf_ok s \<Longrightarrow> 0 \<le> offset \<Longrightarrow>
   \<exists>r. nextline s offset = Inr r \<and> 0 \<le> r \<and> r \<le> pos s (ebuf s)"
proof (induction s offset rule: nextline.induct)
  case (1 s offset)
  show ?case
  proof (cases "ptr s offset < ebuf s")
    case False
    with pos_ebuf_nonneg [OF "1.prems"(1)] show ?thesis
      by (subst nextline.simps) simp
  next
    case True
    from load_inside [OF "1.prems"(1) True]
    obtain c where c: "load s (ptr s offset) = Inr c" by blast
    from True "1.prems" have lt: "offset < pos s (ebuf s)" by (simp add: ptr_inside)
    show ?thesis
    proof (cases "c = 10")
      case True
      with \<open>ptr s offset < ebuf s\<close> c lt "1.prems"(2) show ?thesis
        by (subst nextline.simps) simp
    next
      case False
      from "1.IH" [OF True c False "1.prems"(1)] "1.prems"(2)
      obtain r where "nextline s (offset + 1) = Inr r" "0 \<le> r" "r \<le> pos s (ebuf s)"
        by auto
      with True c False show ?thesis
        by (subst nextline.simps) auto
    qed
  qed
qed

lemma adjust_loop_ok:
  "buf_ok s \<Longrightarrow> 0 \<le> offset \<Longrightarrow> offset \<le> pos s (ebuf s) \<Longrightarrow>
   \<exists>r. adjust_loop s column offset i = Inr r \<and> offset \<le> r \<and> r \<le> pos s (ebuf s)"
proof (induction s column offset i rule: adjust_loop.induct)
  case (1 s column offset i)
  show ?case
  proof (cases "ptr s offset < ebuf s")
    case False
    with "1.prems" show ?thesis
      by (subst adjust_loop.simps) simp
  next
    case True
    from load_inside [OF "1.prems"(1) True]
    obtain c where c: "load s (ptr s offset) = Inr c" by blast
    from True "1.prems" have lt: "offset < pos s (ebuf s)" by (simp add: ptr_inside)
    show ?thesis
    proof (cases "c \<noteq> 10 \<and> i < column")
      case False
      with True c "1.prems" show ?thesis
        by (subst adjust_loop.simps) auto
    next
      case go: True
      from "1.IH" [OF True c go "1.prems"(1)] "1.prems"(2) lt
      obtain r where "adjust_loop s column (offset + 1) (i + (if c = 9 then 8 - (i AND 7) else 1)) = Inr r"
        "offset + 1 \<le> r" "r \<le> pos s (ebuf s)"
        by auto
      with True c go show ?thesis
        by (subst adjust_loop.simps) auto
    qed
  qed
qed

lemma state_ok_idx: "state_ok s \<Longrightarrow> 0 \<le> r \<Longrightarrow> r \<le> pos s (ebuf s) \<Longrightarrow> state_ok (s\<lparr>idx := r\<rparr>)"
  by (simp add: state_ok_def buf_ok_def pos_def ebuf_def)

lemma up_ok:
  assumes "state_ok s"
  shows "\<exists>r. up s = Inr (s\<lparr>idx := r\<rparr>) \<and> 0 \<le> r \<and> r \<le> pos s (ebuf s)"
proof -
  from assms have ok: "buf_ok s" "idx s \<le> pos s (ebuf s)" by (simp_all add: state_ok_def)
  from prevline_ok [OF ok]
  obtain a where a: "prevline s (idx s) = Inr a" "0 \<le> a" "a \<le> max 0 (idx s)" by blast
  with ok have "a - 1 \<le> pos s (ebuf s)" using assms by (simp add: state_ok_def)
  from prevline_ok [OF ok(1) this]
  obtain b where b: "prevline s (a - 1) = Inr b" "0 \<le> b" "b \<le> max 0 (a - 1)" by blast
  with a ok assms have "b \<le> pos s (ebuf s)" by (simp add: state_ok_def)
  from adjust_loop_ok [OF ok(1) b(2) this]
  obtain c where c: "adjust s b (col s) = Inr c" "b \<le> c" "c \<le> pos s (ebuf s)"
    unfolding adjust_def by blast
  with a b show ?thesis by (intro exI [of _ c]) (simp add: up_def)
qed

lemma down_ok:
  assumes "state_ok s"
  shows "\<exists>r. down s = Inr (s\<lparr>idx := r\<rparr>) \<and> 0 \<le> r \<and> r \<le> pos s (ebuf s)"
proof -
  from assms have ok: "buf_ok s" "0 \<le> idx s" by (simp_all add: state_ok_def)
  from nextline_ok [OF ok]
  obtain a where a: "nextline s (idx s) = Inr a" "0 \<le> a" "a \<le> pos s (ebuf s)" by blast
  from adjust_loop_ok [OF ok(1) a(2) a(3)]
  obtain c where c: "adjust s a (col s) = Inr c" "a \<le> c" "c \<le> pos s (ebuf s)"
    unfolding adjust_def by blast
  with a show ?thesis by (intro exI [of _ c]) (simp add: down_def)
qed


lemma same_text_refl: "same_text s s"
  by (simp add: same_text_def)

lemma same_text_trans: "same_text s t \<Longrightarrow> same_text t u \<Longrightarrow> same_text s u"
  by (simp add: same_text_def)

lemma same_text_buf_ok: "same_text s s' \<Longrightarrow> buf_ok s \<Longrightarrow> buf_ok s'"
  by (simp add: same_text_def buf_ok_def ebuf_def)

lemma same_text_pos: "same_text s s' \<Longrightarrow> pos s' (ebuf s') = pos s (ebuf s)"
  by (simp add: same_text_def pos_def ebuf_def)

lemma same_text_state_ok: "same_text s s' \<Longrightarrow> state_ok s \<Longrightarrow> state_ok s'"
  using same_text_buf_ok [of s s'] same_text_pos [of s s']
  by (simp add: state_ok_def) (simp add: same_text_def)

lemma get_lineno_loop_ok:
  "0 \<le> i \<Longrightarrow> idx s \<le> ebuf s \<Longrightarrow> \<exists>l. get_lineno_loop s i ln = Inr l"
proof (induction s i ln rule: get_lineno_loop.induct)
  case (1 s i ln)
  show ?case
  proof (cases "i < idx s")
    case False
    then show ?thesis by (subst get_lineno_loop.simps) simp
  next
    case True
    with "1.prems" obtain c where c: "load s i = Inr c" by (auto simp: load_def)
    from "1.IH" [OF True c] "1.prems" True c show ?thesis
      by (subst get_lineno_loop.simps) simp
  qed
qed

lemma pos_ebuf_le: "buf_ok s \<Longrightarrow> pos s (ebuf s) \<le> ebuf s"
  by (auto simp: buf_ok_def pos_def)

lemma get_lineno_ok:
  assumes "state_ok s"
  shows "\<exists>s'. get_lineno s = Inr s' \<and> same_text s s'"
proof -
  from assms pos_ebuf_le [of s] have "idx s \<le> ebuf s" by (simp add: state_ok_def)
  from get_lineno_loop_ok [OF _ this, of 0 1]
  obtain l where "get_lineno_loop s 0 1 = Inr l" by auto
  then show ?thesis by (simp add: get_lineno_def same_text_def)
qed

lemma page_back_ok:
  "buf_ok s \<Longrightarrow> page s \<le> pos s (ebuf s) \<Longrightarrow> \<exists>s'. page_back i s = Inr s' \<and> same_text s s'"
proof (induction i s rule: page_back.induct)
  case (1 i s)
  show ?case
  proof (cases "0 < i")
    case False
    then show ?thesis
      by (subst page_back.simps) (simp add: same_text_refl)
  next
    case True
    from "1.prems" have "page s - 1 \<le> pos s (ebuf s)" by simp
    from prevline_ok [OF "1.prems"(1) this]
    obtain pg where pg: "prevline s (page s - 1) = Inr pg" "0 \<le> pg" "pg \<le> max 0 (page s - 1)"
      by blast
    define t where "t = s\<lparr>page := pg\<rparr>"
    have st: "same_text s t" by (simp add: t_def same_text_def)
    have ok: "buf_ok t" using st "1.prems"(1) by (rule same_text_buf_ok)
    have "pg \<le> pos s (ebuf s)"
      using pg(3) "1.prems"(2) pos_ebuf_nonneg [OF "1.prems"(1)] by linarith
    then have le: "page t \<le> pos t (ebuf t)"
      by (simp add: same_text_pos [OF st]) (simp add: t_def)
    from "1.IH" [OF True pg(1), folded t_def, OF ok le]
    obtain s' where s': "page_back (i - 1) t = Inr s'" "same_text t s'"
      by auto
    have "page_back i s = page_back (i - 1) t"
      using True pg(1) by (subst page_back.simps) (simp add: t_def)
    with s' st show ?thesis by (auto intro: same_text_trans)
  qed
qed

lemma render_ok:
  "buf_ok s \<Longrightarrow> \<exists>s'. render ROW_MAX COL_MAX i j s = Inr s' \<and> same_text s s'"
proof (induction ROW_MAX COL_MAX i j s rule: render.induct)
  case (1 ROW_MAX COL_MAX i j s)
  define m where "m = mark_cursor i j s"
  have sm: "same_text s m"
    by (simp add: m_def mark_cursor_def same_text_def)
  have okm: "buf_ok m" using sm "1.prems" by (rule same_text_buf_ok)
  show ?case
  proof (cases "ROW_MAX - 1 \<le> i \<or> ebuf m \<le> ptr m (epage s)")
    case True
    then have "render ROW_MAX COL_MAX i j s = Inr m"
      by (subst render.simps) (simp add: m_def)
    with sm show ?thesis by simp
  next
    case False
    then have lt: "ptr m (epage s) < ebuf m" by simp
    from load_inside [OF okm lt]
    obtain c where c: "load m (ptr m (epage s)) = Inr c" by blast
    define m' where "m' = m\<lparr>epage := epage s + 1\<rparr>"
    have smm: "same_text s m'" using sm by (simp add: m'_def same_text_def)
    have okm': "buf_ok m'" using smm "1.prems" by (rule same_text_buf_ok)
    show ?thesis
    proof (cases "c = 10 \<or> COL_MAX \<le> next_col j c")
      case True
      from "1.IH"(1) [OF False [unfolded m_def] c [unfolded m_def] True okm' [unfolded m'_def m_def]]
      obtain s' where "render ROW_MAX COL_MAX (i + 1) 0 m' = Inr s'" "same_text m' s'"
        unfolding m'_def m_def by blast
      moreover have "render ROW_MAX COL_MAX i j s = render ROW_MAX COL_MAX (i + 1) 0 m'"
        using False c True by (subst render.simps) (simp add: m_def m'_def)
      ultimately show ?thesis using smm by (auto intro: same_text_trans)
    next
      case go: False
      from "1.IH"(2) [OF False [unfolded m_def] c [unfolded m_def] go okm' [unfolded m'_def m_def]]
      obtain s' where "render ROW_MAX COL_MAX i (next_col j c) m' = Inr s'" "same_text m' s'"
        unfolding m'_def m_def by blast
      moreover have "render ROW_MAX COL_MAX i j s = render ROW_MAX COL_MAX i (next_col j c) m'"
        using False c go by (subst render.simps) (simp add: m_def m'_def)
      ultimately show ?thesis using smm by (auto intro: same_text_trans)
    qed
  qed
qed

lemma page_back_page_le:
  "buf_ok s \<Longrightarrow> page s \<le> pos s (ebuf s) \<Longrightarrow> page_back i s = Inr s' \<Longrightarrow>
   page s' \<le> pos s (ebuf s)"
proof (induction i s rule: page_back.induct)
  case (1 i s)
  show ?case
  proof (cases "0 < i")
    case False
    with "1.prems" show ?thesis
      by (subst (asm) page_back.simps) auto
  next
    case True
    from "1.prems" have "page s - 1 \<le> pos s (ebuf s)" by simp
    from prevline_ok [OF "1.prems"(1) this]
    obtain pg where pg: "prevline s (page s - 1) = Inr pg" "0 \<le> pg" "pg \<le> max 0 (page s - 1)"
      by blast
    define t where "t = s\<lparr>page := pg\<rparr>"
    have st: "same_text s t" by (simp add: t_def same_text_def)
    have ok: "buf_ok t" using st "1.prems"(1) by (rule same_text_buf_ok)
    have "pg \<le> pos s (ebuf s)"
      using pg(3) "1.prems"(2) pos_ebuf_nonneg [OF "1.prems"(1)] by linarith
    then have le: "page t \<le> pos t (ebuf t)"
      by (simp add: same_text_pos [OF st]) (simp add: t_def)
    have "page_back i s = page_back (i - 1) t"
      using True pg(1) by (subst page_back.simps) (simp add: t_def)
    with "1.prems"(3) have "page_back (i - 1) t = Inr s'" by simp
    from "1.IH" [OF True pg(1), folded t_def, OF ok le this]
    show ?thesis by (simp add: same_text_pos [OF st])
  qed
qed

lemma render_epage_le:
  "buf_ok s \<Longrightarrow> epage s \<le> pos s (ebuf s) \<Longrightarrow> render ROW_MAX COL_MAX i j s = Inr s' \<Longrightarrow>
   epage s' \<le> pos s (ebuf s)"
proof (induction ROW_MAX COL_MAX i j s rule: render.induct)
  case (1 ROW_MAX COL_MAX i j s)
  define m where "m = mark_cursor i j s"
  have sm: "same_text s m" "epage m = epage s"
    by (simp_all add: m_def mark_cursor_def same_text_def)
  have okm: "buf_ok m" using sm(1) "1.prems"(1) by (rule same_text_buf_ok)
  show ?case
  proof (cases "ROW_MAX - 1 \<le> i \<or> ebuf m \<le> ptr m (epage s)")
    case True
    then have "render ROW_MAX COL_MAX i j s = Inr m"
      by (subst render.simps) (simp add: m_def)
    with "1.prems"(2,3) sm(2) show ?thesis by simp
  next
    case False
    then have lt: "ptr m (epage s) < ebuf m" by simp
    from load_inside [OF okm lt]
    obtain c where c: "load m (ptr m (epage s)) = Inr c" by blast
    define m' where "m' = m\<lparr>epage := epage s + 1\<rparr>"
    have smm: "same_text s m'" using sm(1) by (simp add: m'_def same_text_def)
    have okm': "buf_ok m'" using smm "1.prems"(1) by (rule same_text_buf_ok)
    have "epage s + 1 \<le> pos m (ebuf m)"
    proof (cases "0 \<le> epage s")
      case True
      with lt okm show ?thesis by (simp add: ptr_inside)
    next
      case False
      with pos_ebuf_nonneg [OF okm] show ?thesis by simp
    qed
    then have le': "epage m' \<le> pos m' (ebuf m')"
      by (simp add: same_text_pos [OF smm] same_text_pos [OF sm(1)]) (simp add: m'_def)
    show ?thesis
    proof (cases "c = 10 \<or> COL_MAX \<le> next_col j c")
      case True
      have "render ROW_MAX COL_MAX i j s = render ROW_MAX COL_MAX (i + 1) 0 m'"
        using False c True by (subst render.simps) (simp add: m_def m'_def)
      with "1.prems"(3) have r: "render ROW_MAX COL_MAX (i + 1) 0 m' = Inr s'" by simp
      from "1.IH"(1) [OF False [unfolded m_def] c [unfolded m_def] True
          okm' [unfolded m'_def m_def] le' [unfolded m'_def m_def] r [unfolded m'_def m_def]]
      show ?thesis by (simp add: same_text_pos [OF smm, unfolded m'_def m_def])
    next
      case go: False
      have "render ROW_MAX COL_MAX i j s = render ROW_MAX COL_MAX i (next_col j c) m'"
        using False c go by (subst render.simps) (simp add: m_def m'_def)
      with "1.prems"(3) have r: "render ROW_MAX COL_MAX i (next_col j c) m' = Inr s'" by simp
      from "1.IH"(2) [OF False [unfolded m_def] c [unfolded m_def] go
          okm' [unfolded m'_def m_def] le' [unfolded m'_def m_def] r [unfolded m'_def m_def]]
      show ?thesis by (simp add: same_text_pos [OF smm, unfolded m'_def m_def])
    qed
  qed
qed

lemma get_lineno_display:
  "get_lineno s = Inr s' \<Longrightarrow>
   page s' = page s \<and> epage s' = epage s \<and> row s' = row s \<and> col s' = col s"
  by (auto simp: get_lineno_def split: sum.splits)

lemma update_display_ok:
  assumes "state_ok s"
  shows "\<exists>s'. update_display ROW_MAX COL_MAX s = Inr s' \<and> same_text s s' \<and>
              epage s' \<le> pos s (ebuf s)"
proof -
  from assms have ok: "buf_ok s" "0 \<le> idx s" "idx s \<le> pos s (ebuf s)"
    by (simp_all add: state_ok_def)
  define r1 where "r1 = (if idx s < page s then
           (case prevline s (idx s) of
              Inl f \<Rightarrow> Inl f
            | Inr pg \<Rightarrow> Inr (s\<lparr>page := pg\<rparr>))
         else Inr s)"
  have "\<exists>s1. r1 = Inr s1 \<and> same_text s s1 \<and> page s1 \<le> pos s (ebuf s)"
  proof (cases "idx s < page s")
    case False
    with ok(3) show ?thesis by (simp add: r1_def same_text_refl)
  next
    case True
    from prevline_ok [OF ok(1) ok(3)] obtain pg where
      "prevline s (idx s) = Inr pg" "pg \<le> max 0 (idx s)" by blast
    with True ok(2,3) show ?thesis by (simp add: r1_def same_text_def)
  qed
  then obtain s1 where s1: "r1 = Inr s1" "same_text s s1" "page s1 \<le> pos s (ebuf s)" by blast
  have ok1: "buf_ok s1" using s1(2) ok(1) by (rule same_text_buf_ok)
  have i1: "idx s1 = idx s" using s1(2) by (simp add: same_text_def)
  note p1 = same_text_pos [OF s1(2)]
  define r2 where "r2 = (if epage s1 \<le> idx s1 then
                (case nextline s1 (idx s1) of
                   Inl f \<Rightarrow> Inl f
                 | Inr pg \<Rightarrow>
                     page_back (if pg = pos s1 (ebuf s1) then ROW_MAX - 3 else ROW_MAX - 1)
                       (s1\<lparr>page := pg\<rparr>))
              else Inr s1)"
  have "\<exists>s2. r2 = Inr s2 \<and> same_text s1 s2 \<and> page s2 \<le> pos s (ebuf s)"
  proof (cases "epage s1 \<le> idx s1")
    case False
    with s1(3) show ?thesis by (simp add: r2_def same_text_refl)
  next
    case True
    from nextline_ok [OF ok1, of "idx s1"] ok(2) i1
    obtain pg where pg: "nextline s1 (idx s1) = Inr pg" "0 \<le> pg" "pg \<le> pos s1 (ebuf s1)"
      by auto
    define t where "t = s1\<lparr>page := pg\<rparr>"
    have st: "same_text s1 t" by (simp add: t_def same_text_def)
    have okt: "buf_ok t" using st ok1 by (rule same_text_buf_ok)
    have le: "page t \<le> pos t (ebuf t)"
      using pg(3) by (simp add: same_text_pos [OF st]) (simp add: t_def)
    from page_back_ok [OF okt le]
    obtain s2 where s2: "page_back (if pg = pos s1 (ebuf s1) then ROW_MAX - 3 else ROW_MAX - 1) t = Inr s2"
      "same_text t s2" by blast
    from page_back_page_le [OF okt le s2(1)]
    have "page s2 \<le> pos s (ebuf s)" by (simp add: same_text_pos [OF st] p1)
    with True pg(1) st s2 show ?thesis
      by (auto simp: r2_def t_def [symmetric] intro: same_text_trans)
  qed
  then obtain s2 where s2: "r2 = Inr s2" "same_text s1 s2" "page s2 \<le> pos s (ebuf s)" by blast
  have s02: "same_text s s2" using s1(2) s2(2) by (rule same_text_trans)
  define t2 where "t2 = s2\<lparr>epage := page s2\<rparr>"
  have st2: "same_text s t2" using s02 by (simp add: t2_def same_text_def)
  have okt2: "buf_ok t2" using st2 ok(1) by (rule same_text_buf_ok)
  have le2: "epage t2 \<le> pos t2 (ebuf t2)"
    using s2(3) by (simp add: same_text_pos [OF st2]) (simp add: t2_def)
  from render_ok [OF okt2]
  obtain s3 where s3: "render ROW_MAX COL_MAX 0 0 t2 = Inr s3" "same_text t2 s3" by blast
  from render_epage_le [OF okt2 le2 s3(1)]
  have e3: "epage s3 \<le> pos s (ebuf s)" by (simp add: same_text_pos [OF st2])
  have s03: "same_text s s3" using st2 s3(2) by (rule same_text_trans)
  from get_lineno_ok [OF same_text_state_ok [OF s03 assms]]
  obtain s4 where s4: "get_lineno s3 = Inr s4" "same_text s3 s4" by blast
  have "update_display ROW_MAX COL_MAX s = Inr s4"
    unfolding update_display_def r1_def [symmetric] s1(1)
    by (simp add: r2_def [symmetric] s2(1) t2_def [symmetric] s3(1) s4(1))
  moreover have "same_text s s4" using s03 s4(2) by (rule same_text_trans)
  moreover have "epage s4 \<le> pos s (ebuf s)"
    using e3 get_lineno_display [OF s4(1)] by simp
  ultimately show ?thesis by blast
qed

text \<open>
  Every command takes a well-formed state to a well-formed state, so the loop of \<open>main\<close>
  never reads or writes outside the arena, whatever the keys, the file, the size of the
  arena and the size of the grid.
\<close>

lemma insert_ch_ok:
  assumes "state_ok s"
  shows "\<exists>s'. insert_ch s ch = Inr s' \<and> state_ok s' \<and> dirty s' = dirty s \<and> filename s' = filename s"
proof -
  note bd = state_ok_bounds [OF assms]
  consider (del) "ch = 8 \<or> ch = 127" | (full) "ch \<noteq> 8" "ch \<noteq> 127" "gap s = egap s"
    | (store) "ch \<noteq> 8" "ch \<noteq> 127" "gap s < egap s"
    using bd by fastforce
  then show ?thesis
  proof cases
    case del
    from insert_ch_delete [OF assms del]
    obtain b where b: "insert_ch s ch =
            Inr (s\<lparr>buf := b, gap := (if 0 < idx s then idx s - 1 else idx s),
                   egap := idx s + (egap s - gap s),
                   idx := (if 0 < idx s then idx s - 1 else idx s)\<rparr>)"
      "length b = length (buf s)" by blast
    show ?thesis unfolding b(1) using bd b(2)
      by (simp add: state_ok_def buf_ok_def pos_def ebuf_def)
  next
    case full
    from insert_ch_full [OF assms full]
    obtain b where b: "insert_ch s ch = Inr (s\<lparr>buf := b, gap := idx s, egap := idx s\<rparr>)"
      "length b = length (buf s)" by blast
    show ?thesis unfolding b(1) using bd b(2) full
      by (simp add: state_ok_def buf_ok_def pos_def ebuf_def)
  next
    case store
    from insert_ch_store [OF assms store]
    obtain b where b: "insert_ch s ch =
            Inr (s\<lparr>buf := b, gap := idx s + 1, egap := idx s + (egap s - gap s), idx := idx s + 1\<rparr>)"
      "length b = length (buf s)" by blast
    show ?thesis unfolding b(1) using bd b(2) store
      by (simp add: state_ok_def buf_ok_def pos_def ebuf_def)
  qed
qed

lemma save_file_ok:
  assumes "state_ok s"
  shows "\<exists>s' r. save_file COL_MAX opens input s = Inr (s', r) \<and> state_ok s' \<and>
           (dirty s' = 0 \<or> dirty s' = dirty s)"
proof -
  have keep: "\<And>n. state_ok (s\<lparr>filename := n\<rparr>)"
    using assms by (auto simp: state_ok_def buf_ok_def pos_def ebuf_def split: if_splits)
  have wr: "\<And>n. \<exists>s1. movegap (s\<lparr>filename := Some n, idx := 0\<rparr>) = Inr s1 \<and>
                 state_ok (s1\<lparr>idx := idx s, dirty := 0\<rparr>)"
  proof -
    fix n
    define t where "t = s\<lparr>filename := Some n, idx := 0\<rparr>"
    note bd = state_ok_bounds [OF assms]
    have okt: "state_ok t"
      using assms pos_ebuf_nonneg [of s]
      by (auto simp: t_def state_ok_def buf_ok_def pos_def ebuf_def split: if_splits)
    from movegap_ok [OF okt]
    obtain b where b: "movegap t = Inr (t\<lparr>buf := b, gap := idx t, egap := idx t + (egap t - gap t)\<rparr>)"
      "length b = length (buf t)" by blast
    have "state_ok ((t\<lparr>buf := b, gap := idx t, egap := idx t + (egap t - gap t)\<rparr>)\<lparr>idx := idx s, dirty := 0\<rparr>)"
      using bd b(2) by (simp add: t_def state_ok_def buf_ok_def pos_def ebuf_def)
    with b(1) show "\<exists>s1. movegap (s\<lparr>filename := Some n, idx := 0\<rparr>) = Inr s1 \<and>
                 state_ok (s1\<lparr>idx := idx s, dirty := 0\<rparr>)"
      unfolding t_def by blast
  qed
  show ?thesis
  proof (cases "case filename s of None \<Rightarrow> get_name COL_MAX input | Some name \<Rightarrow> Some (Some name, input)")
    case None
    with assms show ?thesis by (simp add: save_file_def)
  next
    case (Some a)
    obtain n rest where a: "a = (n, rest)" by (cases a)
    show ?thesis
    proof (cases n)
      case None
      with Some a assms show ?thesis by (simp add: save_file_def)
    next
      case sn: (Some name)
      show ?thesis
      proof (cases opens)
        case False
        with Some a sn keep [of "Some name"] show ?thesis by (simp add: save_file_def)
      next
        case True
        from wr [of name] obtain s1 where "movegap (s\<lparr>filename := Some name, idx := 0\<rparr>) = Inr s1"
          "state_ok (s1\<lparr>idx := idx s, dirty := 0\<rparr>)" by blast
        with Some a sn True show ?thesis by (simp add: save_file_def)
      qed
    qed
  qed
qed

lemma left_ok: "state_ok s \<Longrightarrow> state_ok (left s) \<and> dirty (left s) = dirty s"
  by (auto simp: left_def state_ok_def buf_ok_def pos_def ebuf_def split: if_splits)

lemma right_ok: "state_ok s \<Longrightarrow> state_ok (right s) \<and> dirty (right s) = dirty s"
  by (auto simp: right_def state_ok_def buf_ok_def pos_def ebuf_def split: if_splits)

lemma command_ok:
  assumes "state_ok s" "dirty s = 0"
  shows "\<exists>s' r. command ROW_MAX COL_MAX opens input s = Inr (s', r) \<and> state_ok s' \<and> dirty s' = 0"
proof -
  from up_ok [OF assms(1)] obtain ru where
    u: "up s = Inr (s\<lparr>idx := ru\<rparr>)" "state_ok (s\<lparr>idx := ru\<rparr>)"
    using state_ok_idx [OF assms(1)] by blast
  from down_ok [OF assms(1)] obtain rd where
    d: "down s = Inr (s\<lparr>idx := rd\<rparr>)" "state_ok (s\<lparr>idx := rd\<rparr>)"
    using state_ok_idx [OF assms(1)] by blast
  from update_display_ok [OF assms(1)] obtain sd where
    sd: "update_display ROW_MAX COL_MAX s = Inr sd" "same_text s sd" by blast
  have okd: "state_ok sd" "dirty sd = 0"
    using same_text_state_ok [OF sd(2) assms(1)] sd(2) assms(2) by (simp_all add: same_text_def)
  from insert_ch_ok [OF assms(1)] obtain si where
    si: "insert_ch s (hd input) = Inr si" "state_ok si" "dirty si = dirty s" by blast
  from save_file_ok [OF assms(1)] obtain ss rs where
    ss: "save_file COL_MAX opens (tl (tl input)) s = Inr (ss, rs)" "state_ok ss"
      "dirty ss = 0 \<or> dirty ss = dirty s" by blast
  note l = left_ok [OF assms(1)] and r = right_ok [OF assms(1)]
  show ?thesis
    using assms u d sd(1) okd si ss l r
    by (auto simp: command_def split: list.splits)
qed

lemma main_loop_ok:
  "state_ok s \<Longrightarrow> dirty s = 0 \<Longrightarrow>
   \<exists>s'. main_loop ROW_MAX COL_MAX opens input s = Inr s' \<and> state_ok s' \<and> dirty s' = 0"
proof (induction "length input" arbitrary: input s rule: less_induct)
  case less
  from update_display_ok [OF less.prems(1)] obtain s1 where
    s1: "update_display ROW_MAX COL_MAX s = Inr s1" "same_text s s1" by blast
  have ok1: "state_ok s1" "dirty s1 = 0"
    using same_text_state_ok [OF s1(2) less.prems(1)] s1(2) less.prems(2)
    by (simp_all add: same_text_def)
  from command_ok [OF ok1] obtain s2 r where
    c: "command ROW_MAX COL_MAX opens input s1 = Inr (s2, r)" "state_ok s2" "dirty s2 = 0"
    by blast
  show ?case
  proof (cases r)
    case None
    with s1(1) c show ?thesis by (subst main_loop.simps) simp
  next
    case (Some rest)
    with c(1) have "length rest < length input" by (auto dest: command_shorter)
    from less.hyps [OF this c(2) c(3)] obtain s' where
      "main_loop ROW_MAX COL_MAX opens rest s2 = Inr s'" "state_ok s'" "dirty s' = 0" by blast
    with s1(1) c(1) Some show ?thesis by (subst main_loop.simps) simp
  qed
qed

lemma main_start_ok: "state_ok (main_start BUF arg) \<and> dirty (main_start BUF arg) = 0"
  by (auto simp: main_start_def init_buf_def state_ok_def buf_ok_def pos_def ebuf_def
           split: option.splits)

lemma editor_stays_in_arena:
  "\<exists>s. main_loop ROW_MAX COL_MAX opens input (main_start BUF arg) = Inr s \<and> state_ok s \<and> dirty s = 0"
  using main_loop_ok main_start_ok by blast

lemma reached_state_ok:
  assumes "main_loop ROW_MAX COL_MAX opens input (main_start BUF arg) = Inr s"
  shows "state_ok s \<and> dirty s = 0"
  using editor_stays_in_arena [of ROW_MAX COL_MAX opens input BUF arg] assms by auto

section \<open>The dirty flag\<close>

text \<open>
  C3. The flag \<open>dirty\<close> is 0 at the start and nothing sets it: in every well-formed
  state \<open>insert\<close> returns with \<open>dirty\<close> as it was, also when it has stored a byte (the
  document is one byte longer) and when it has deleted one (the document is one byte
  shorter). By \<open>reached_state_ok\<close> the flag is 0 in every state the editor reaches.
\<close>

theorem insert_keeps_dirty:
  assumes "state_ok s"
  shows "\<exists>s'. insert_ch s ch = Inr s' \<and> dirty s' = dirty s \<and>
           (ch \<noteq> 8 \<and> ch \<noteq> 127 \<and> pos s (ebuf s) < ebuf s \<longrightarrow>
              length (doc s') = length (doc s) + 1) \<and>
           ((ch = 8 \<or> ch = 127) \<and> 0 < idx s \<longrightarrow> length (doc s') + 1 = length (doc s))"
proof -
  note bd = state_ok_bounds [OF assms]
  from assms have ok: "buf_ok s" by (simp add: state_ok_def)
  have len: "int (length (doc s)) = int (length (buf s)) - (egap s - gap s)"
    using length_doc [OF ok] bd by (simp add: pos_def ebuf_def)
  consider (del) "ch = 8 \<or> ch = 127" | (full) "ch \<noteq> 8" "ch \<noteq> 127" "gap s = egap s"
    | (store) "ch \<noteq> 8" "ch \<noteq> 127" "gap s < egap s"
    using bd by fastforce
  then show ?thesis
  proof cases
    case del
    from insert_ch_delete [OF assms del]
    obtain b where b: "insert_ch s ch =
            Inr (s\<lparr>buf := b, gap := (if 0 < idx s then idx s - 1 else idx s),
                   egap := idx s + (egap s - gap s),
                   idx := (if 0 < idx s then idx s - 1 else idx s)\<rparr>)"
      "length b = length (buf s)" by blast
    define s' where "s' = s\<lparr>buf := b, gap := (if 0 < idx s then idx s - 1 else idx s),
                   egap := idx s + (egap s - gap s),
                   idx := (if 0 < idx s then idx s - 1 else idx s)\<rparr>"
    have ok': "buf_ok s'" using bd b(2) by (simp add: s'_def buf_ok_def ebuf_def)
    have "0 < idx s \<longrightarrow> int (length (doc s')) + 1 = int (length (doc s))"
      using length_doc [OF ok'] bd b(2) by (simp add: len) (simp add: s'_def pos_def ebuf_def)
    then have "0 < idx s \<longrightarrow> length (doc s') + 1 = length (doc s)" by linarith
    moreover have "dirty s' = dirty s" by (simp add: s'_def)
    ultimately show ?thesis using b(1) del unfolding s'_def [symmetric] by auto
  next
    case full
    from insert_ch_full [OF assms full]
    obtain b where b: "insert_ch s ch = Inr (s\<lparr>buf := b, gap := idx s, egap := idx s\<rparr>)"
      by blast
    have "\<not> pos s (ebuf s) < ebuf s" using full(3) bd by (simp add: pos_def ebuf_def)
    with b full show ?thesis by simp
  next
    case store
    from insert_ch_store [OF assms store]
    obtain b where b: "insert_ch s ch =
            Inr (s\<lparr>buf := b, gap := idx s + 1, egap := idx s + (egap s - gap s), idx := idx s + 1\<rparr>)"
      "length b = length (buf s)" by blast
    define s' where
      "s' = s\<lparr>buf := b, gap := idx s + 1, egap := idx s + (egap s - gap s), idx := idx s + 1\<rparr>"
    have ok': "buf_ok s'" using bd b(2) store(3) by (simp add: s'_def buf_ok_def ebuf_def)
    have "int (length (doc s')) = int (length (doc s)) + 1"
      using length_doc [OF ok'] bd b(2) store(3)
      by (simp add: len) (simp add: s'_def pos_def ebuf_def)
    then have "length (doc s') = length (doc s) + 1" by linarith
    moreover have "dirty s' = dirty s" by (simp add: s'_def)
    ultimately show ?thesis using b(1) store unfolding s'_def [symmetric] by auto
  qed
qed

lemma typed_a_ok: "state_ok typed_a"
  by (simp add: typed_a_def state_ok_def buf_ok_def pos_def ebuf_def)

theorem insert_keeps_dirty_witness:
  "state_ok typed_a \<and> dirty typed_a = 0 \<and> doc typed_a = [97] \<and>
   (\<exists>s'. insert_ch typed_a 98 = Inr s' \<and> length (doc s') = 2 \<and> dirty s' = 0)"
proof -
  have d: "dirty typed_a = 0" "doc typed_a = [97]" "pos typed_a (ebuf typed_a) < ebuf typed_a"
    by (simp_all add: typed_a_def doc_def pos_def ebuf_def)
  from insert_keeps_dirty [OF typed_a_ok, of 98] typed_a_ok show ?thesis
    by (auto simp: d)
qed

text \<open>
  The keys at work: after the key \<open>a\<close> the document has changed from empty to \<open>a\<close> and
  the flag is 0, and it is 0 after a second key and after a backspace.
\<close>

lemma dirty_after_keys:
  "main_loop 24 80 True [97] (main_start 8 None) = Inr typed_a \<and>
   doc (main_start 8 None) = [] \<and> doc typed_a = [97] \<and> dirty typed_a = 0 \<and>
   insert_ch typed_a 98 = Inr (typed_a\<lparr>buf := [97, 98, 0, 0, 0, 0, 0, 0], gap := 2, idx := 2\<rparr>) \<and>
   dirty (typed_a\<lparr>buf := [97, 98, 0, 0, 0, 0, 0, 0], gap := 2, idx := 2\<rparr>) = 0 \<and>
   insert_ch typed_a 8 = Inr (typed_a\<lparr>gap := 0, idx := 0\<rparr>) \<and>
   doc (typed_a\<lparr>gap := 0, idx := 0\<rparr>) = [] \<and>
   dirty (typed_a\<lparr>gap := 0, idx := 0\<rparr>) = 0"
  by code_simp

section \<open>Navigation\<close>

text \<open>
  C4. When the first byte of the document is stored at address \<open>buf\<close> (the gap does not
  start at \<open>buf\<close>) and no newline lies at the offsets from 1 to \<open>offset - 1\<close>, \<open>prevline\<close>
  returns 0, whatever the byte at offset 0 is: the scan stops at address \<open>buf\<close> without
  reading it. With a newline at offset 0 the offset after the nearest newline before
  \<open>offset\<close> is 1. The witness is the document newline, \<open>a\<close>, \<open>b\<close> as typed.
\<close>

theorem prevline_stops_at_buf:
  "buf_ok s \<Longrightarrow> 0 < gap s \<Longrightarrow> offset \<le> pos s (ebuf s) \<Longrightarrow>
   \<forall>k. 1 \<le> k \<and> k < offset \<longrightarrow> doc s ! nat k \<noteq> 10 \<Longrightarrow>
   prevline s offset = Inr 0"
proof (induction s offset rule: prevline.induct)
  case (1 s offset)
  show ?case
  proof (cases "0 < ptr s (offset - 1)")
    case False
    then show ?thesis by (subst prevline.simps) simp
  next
    case True
    with "1.prems"(2) have one: "1 \<le> offset - 1"
      by (auto simp: ptr_def split: if_splits)
    then have nn: "0 \<le> offset - 1" by simp
    from "1.prems"(3) have lt: "offset - 1 < pos s (ebuf s)" by simp
    from "1.prems"(1) nn lt have "ptr s (offset - 1) < ebuf s" by (simp add: ptr_inside)
    with True have ld: "load s (ptr s (offset - 1)) = Inr (buf s ! nat (ptr s (offset - 1)))"
      by (simp add: load_def)
    from one "1.prems"(4) have "doc s ! nat (offset - 1) \<noteq> 10" by simp
    with doc_nth [OF "1.prems"(1) nn lt] have ne: "buf s ! nat (ptr s (offset - 1)) \<noteq> 10" by simp
    have "offset - 1 \<le> pos s (ebuf s)" using lt by simp
    moreover have "\<forall>k. 1 \<le> k \<and> k < offset - 1 \<longrightarrow> doc s ! nat k \<noteq> 10"
      using "1.prems"(4) by simp
    ultimately have "prevline s (offset - 1) = Inr 0"
      using "1.IH" [OF True ld ne "1.prems"(1,2)] by blast
    with True ld ne show ?thesis by (subst prevline.simps) simp
  qed
qed

theorem prevline_stops_at_buf_witness:
  "buf_ok nl_ab \<and> 0 < gap nl_ab \<and> 3 \<le> pos nl_ab (ebuf nl_ab) \<and>
   doc nl_ab = [10, 97, 98] \<and> prevline nl_ab 3 = Inr 0"
proof -
  have h: "buf_ok nl_ab" "0 < gap nl_ab" "3 \<le> pos nl_ab (ebuf nl_ab)"
    by (simp_all add: nl_ab_def buf_ok_def pos_def ebuf_def)
  have d: "doc nl_ab = [10, 97, 98]" by (simp add: nl_ab_def doc_def)
  have n: "\<forall>k. 1 \<le> k \<and> k < (3::int) \<longrightarrow> doc nl_ab ! nat k \<noteq> 10"
  proof (intro allI impI)
    fix k :: int assume "1 \<le> k \<and> k < 3"
    then have "k = 1 \<or> k = 2" by auto
    then show "doc nl_ab ! nat k \<noteq> 10" by (auto simp: d)
  qed
  from prevline_stops_at_buf [OF h n] h d show ?thesis by simp
qed

text \<open>
  The result depends on where the gap is: for the same document newline, \<open>a\<close>, \<open>b\<close>,
  \<open>prevline\<close> of the offsets 2 and 3 is 0 when the text lies before the gap and 1 when
  it lies behind the gap, where the byte at offset 0 has an address above \<open>buf\<close>.
\<close>

lemma prevline_depends_on_gap:
  "main_loop 24 80 True [10, 97, 98] (main_start 8 None) = Inr nl_ab \<and>
   doc nl_ab = [10, 97, 98] \<and>
   prevline nl_ab 2 = Inr 0 \<and> prevline nl_ab 3 = Inr 0 \<and>
   main_loop 24 80 True [10, 97, 98, 19, 19, 19, 120, 8] (main_start 8 None) = Inr nl_ab_front \<and>
   doc nl_ab_front = [10, 97, 98] \<and>
   prevline nl_ab_front 2 = Inr 1 \<and> prevline nl_ab_front 3 = Inr 1"
  by code_simp

lemma prevline_not_below: "prevline s offset \<noteq> Inl Below"
proof (induction s offset rule: prevline.induct)
  case (1 s offset)
  show ?case
  proof (cases "0 < ptr s (offset - 1)")
    case False
    then show ?thesis by (subst prevline.simps) simp
  next
    case True
    show ?thesis
    proof (cases "load s (ptr s (offset - 1))")
      case (Inl f)
      with True have "f = Above" by (auto simp: load_def split: if_splits)
      with True Inl show ?thesis by (subst prevline.simps) simp
    next
      case (Inr c)
      with True "1.IH" show ?thesis by (subst prevline.simps) simp
    qed
  qed
qed

lemma adjust_loop_not_below: "buf_ok s \<Longrightarrow> adjust_loop s column offset i \<noteq> Inl Below"
proof (induction s column offset i rule: adjust_loop.induct)
  case (1 s column offset i)
  have p: "0 \<le> ptr s offset" using "1.prems" by (rule ptr_nonneg)
  show ?case
  proof (cases "ptr s offset < ebuf s")
    case False
    then show ?thesis by (subst adjust_loop.simps) simp
  next
    case True
    with p obtain c where c: "load s (ptr s offset) = Inr c" by (simp add: load_def)
    with True "1.IH" "1.prems" show ?thesis by (subst adjust_loop.simps) simp
  qed
qed

text \<open>
  C9. In every state, \<open>ptr\<close> of a negative offset is \<open>buf\<close>; \<open>prevline\<close> of any offset
  never reads below the arena; \<open>prevline\<close> of \<open>-1\<close> is 0; and in a state with
  \<open>buf \<le> gap \<le> egap \<le> ebuf\<close> the command \<open>up\<close> never reads below the arena.
\<close>

theorem prevline_never_below_buffer:
  "(\<forall>offset. offset < 0 \<longrightarrow> ptr s offset = 0) \<and>
   (\<forall>offset. prevline s offset \<noteq> Inl Below) \<and>
   prevline s (- 1) = Inr 0 \<and>
   (buf_ok s \<longrightarrow> up s \<noteq> Inl Below)"
proof -
  have 1: "\<forall>offset. offset < 0 \<longrightarrow> ptr s offset = 0" by (simp add: ptr_def)
  have 2: "\<forall>offset. prevline s offset \<noteq> Inl Below" by (simp add: prevline_not_below)
  have 3: "prevline s (- 1) = Inr 0" by (subst prevline.simps) (simp add: ptr_def)
  have 4: "buf_ok s \<longrightarrow> up s \<noteq> Inl Below"
    using prevline_not_below adjust_loop_not_below
    by (auto simp: up_def adjust_def split: sum.splits)
  from 1 2 3 4 show ?thesis by blast
qed

theorem prevline_never_below_buffer_witness:
  "ptr nl_ab (- 1) = 0 \<and> prevline nl_ab 1 \<noteq> Inl Below \<and> prevline nl_ab (- 1) = Inr 0 \<and>
   buf_ok nl_ab \<and> up nl_ab \<noteq> Inl Below"
proof -
  have h: "buf_ok nl_ab" by (simp add: nl_ab_def buf_ok_def ebuf_def)
  from prevline_never_below_buffer [of nl_ab] h show ?thesis by simp
qed

section \<open>The display\<close>

lemma get_lineno_loop_count:
  "0 \<le> i \<Longrightarrow> idx s \<le> ebuf s \<Longrightarrow>
   get_lineno_loop s i ln =
     Inr (ln + int (length (filter (\<lambda>c. c = 10) (drop (nat i) (take (nat (idx s)) (buf s))))))"
proof (induction s i ln rule: get_lineno_loop.induct)
  case (1 s i ln)
  show ?case
  proof (cases "i < idx s")
    case False
    then show ?thesis by (subst get_lineno_loop.simps) simp
  next
    case True
    with "1.prems" have ld: "load s i = Inr (buf s ! nat i)" by (simp add: load_def)
    have lt: "nat i < length (take (nat (idx s)) (buf s))"
      using True "1.prems" by (simp add: ebuf_def)
    have n: "nat (i + 1) = Suc (nat i)" using "1.prems"(1) by simp
    have "drop (nat i) (take (nat (idx s)) (buf s)) =
          take (nat (idx s)) (buf s) ! nat i # drop (Suc (nat i)) (take (nat (idx s)) (buf s))"
      by (rule Cons_nth_drop_Suc [OF lt, symmetric])
    also have "take (nat (idx s)) (buf s) ! nat i = buf s ! nat i"
      using True "1.prems"(1) by simp
    finally have d: "drop (nat i) (take (nat (idx s)) (buf s)) =
          buf s ! nat i # drop (Suc (nat i)) (take (nat (idx s)) (buf s))" .
    from "1.IH" [OF True ld] "1.prems"
    have "get_lineno_loop s (i + 1) (if buf s ! nat i = 10 then ln + 1 else ln) =
       Inr ((if buf s ! nat i = 10 then ln + 1 else ln) +
         int (length (filter (\<lambda>c. c = 10) (drop (nat (i + 1)) (take (nat (idx s)) (buf s))))))"
      by simp
    with True ld show ?thesis
      by (subst get_lineno_loop.simps) (simp add: d n)
  qed
qed

text \<open>
  C8. In every well-formed state \<open>get_lineno\<close> sets \<open>line\<close> to 1 plus the number of
  newlines among the first \<open>idx\<close> bytes of the arena, \<open>buf[0]\<close> to \<open>buf[idx - 1]\<close>, and not
  of the document: when the cursor is behind the start of the gap, bytes of the gap are
  counted. The witness is a state whose document has no newline before the cursor,
  where \<open>line\<close> becomes 2.
\<close>

theorem get_lineno_counts_arena:
  assumes "state_ok s"
  shows "get_lineno s =
     Inr (s\<lparr>line := 1 + int (length (filter (\<lambda>c. c = 10) (take (nat (idx s)) (buf s))))\<rparr>)"
proof -
  from assms pos_ebuf_le [of s] have "idx s \<le> ebuf s" by (simp add: state_ok_def)
  from get_lineno_loop_count [OF _ this, of 0 1] show ?thesis
    by (simp add: get_lineno_def)
qed

lemma x_a_nl_ok: "state_ok x_a_nl"
  by (simp add: x_a_nl_def state_ok_def buf_ok_def pos_def ebuf_def)

theorem get_lineno_counts_arena_witness:
  "state_ok x_a_nl \<and> get_lineno x_a_nl = Inr (x_a_nl\<lparr>line := 2\<rparr>) \<and>
   doc x_a_nl = [120, 97, 10] \<and> idx x_a_nl = 2 \<and>
   1 + int (length (filter (\<lambda>c. c = 10) (take (nat (idx x_a_nl)) (doc x_a_nl)))) = 1"
proof -
  have d: "doc x_a_nl = [120, 97, 10]" "idx x_a_nl = 2" "buf x_a_nl = [120, 10, 0, 0, 0, 0, 97, 10]"
    by (simp_all add: x_a_nl_def doc_def)
  from get_lineno_counts_arena [OF x_a_nl_ok] x_a_nl_ok show ?thesis
    by (simp add: d)
qed

text \<open>
  Both states are reached from the keyboard. In the first the document before the cursor
  is \<open>xa\<close>, with no newline, and \<open>line\<close> is 2; in the second the document before the
  cursor is one newline, and \<open>line\<close> is 1.
\<close>

lemma line_after_keys:
  "main_loop 24 80 True [97, 10, 19, 19, 120, 4] (main_start 8 None) = Inr x_a_nl \<and>
   doc x_a_nl = [120, 97, 10] \<and> idx x_a_nl = 2 \<and>
   1 + int (length (filter (\<lambda>c. c = 10) (take (nat (idx x_a_nl)) (doc x_a_nl)))) = 1 \<and>
   line x_a_nl = 2 \<and>
   main_loop 24 80 True [97, 10, 98, 19, 19, 8, 4] (main_start 8 None) = Inr nl_b \<and>
   doc nl_b = [10, 98] \<and> idx nl_b = 1 \<and>
   1 + int (length (filter (\<lambda>c. c = 10) (take (nat (idx nl_b)) (doc nl_b)))) = 2 \<and>
   line nl_b = 1"
  by code_simp

subsection \<open>A document of one long line\<close>

text \<open>
  In a document without newline the line searches return the ends of the document, and
  the render loop passes a run of \<open>k\<close> bytes that does not hold the cursor by advancing
  the grid position by \<open>k\<close> cells.
\<close>

lemma same_text_doc: "same_text s s' \<Longrightarrow> doc s' = doc s"
  by (simp add: same_text_def doc_def)

lemma same_text_plain: "same_text s s' \<Longrightarrow> plain_doc s \<Longrightarrow> plain_doc s'"
  by (simp add: plain_doc_def same_text_doc)

lemma load_plain:
  assumes "buf_ok s" "plain_doc s" "0 \<le> offset" "offset < pos s (ebuf s)"
  shows "\<exists>c. load s (ptr s offset) = Inr c \<and> c \<noteq> 10 \<and> c \<noteq> 9 \<and> c \<noteq> 13"
proof -
  from assms have lt: "ptr s offset < ebuf s" by (simp add: ptr_inside)
  have "nat offset < length (doc s)"
    using assms length_doc [OF assms(1)] by simp
  then have "doc s ! nat offset \<in> set (doc s)" by simp
  with assms(2) have "doc s ! nat offset \<noteq> 10 \<and> doc s ! nat offset \<noteq> 9 \<and> doc s ! nat offset \<noteq> 13"
    unfolding plain_doc_def by blast
  with lt ptr_nonneg [OF assms(1), of offset] doc_nth [OF assms(1,3,4)] show ?thesis
    by (simp add: load_def)
qed

lemma nextline_plain:
  "buf_ok s \<Longrightarrow> plain_doc s \<Longrightarrow> 0 \<le> offset \<Longrightarrow> nextline s offset = Inr (pos s (ebuf s))"
proof (induction s offset rule: nextline.induct)
  case (1 s offset)
  show ?case
  proof (cases "ptr s offset < ebuf s")
    case False
    then show ?thesis by (subst nextline.simps) simp
  next
    case True
    with "1.prems" have "offset < pos s (ebuf s)" by (simp add: ptr_inside)
    from load_plain [OF "1.prems"(1,2,3) this]
    obtain c where c: "load s (ptr s offset) = Inr c" "c \<noteq> 10" by blast
    from "1.IH" [OF True c "1.prems"(1,2)] "1.prems"(3)
    have "nextline s (offset + 1) = Inr (pos s (ebuf s))" by simp
    with True c show ?thesis by (subst nextline.simps) simp
  qed
qed

lemma prevline_plain:
  "buf_ok s \<Longrightarrow> plain_doc s \<Longrightarrow> offset \<le> pos s (ebuf s) \<Longrightarrow> prevline s offset = Inr 0"
proof (induction s offset rule: prevline.induct)
  case (1 s offset)
  show ?case
  proof (cases "0 < ptr s (offset - 1)")
    case False
    then show ?thesis by (subst prevline.simps) simp
  next
    case True
    then have nn: "0 \<le> offset - 1" by (auto simp: ptr_def split: if_splits)
    from "1.prems"(3) have "offset - 1 < pos s (ebuf s)" by simp
    from load_plain [OF "1.prems"(1,2) nn this]
    obtain c where c: "load s (ptr s (offset - 1)) = Inr c" "c \<noteq> 10" by blast
    from "1.IH" [OF True c "1.prems"(1,2)] "1.prems"(3)
    have "prevline s (offset - 1) = Inr 0" by simp
    with True c show ?thesis by (subst prevline.simps) simp
  qed
qed

lemma page_back_plain:
  "buf_ok s \<Longrightarrow> plain_doc s \<Longrightarrow> page s \<le> pos s (ebuf s) \<Longrightarrow> 0 < i \<Longrightarrow>
   page_back i s = Inr (s\<lparr>page := 0\<rparr>)"
proof (induction i s rule: page_back.induct)
  case (1 i s)
  from "1.prems" have "page s - 1 \<le> pos s (ebuf s)" by simp
  from prevline_plain [OF "1.prems"(1,2) this]
  have p: "prevline s (page s - 1) = Inr 0" .
  define t where "t = s\<lparr>page := 0\<rparr>"
  have st: "same_text s t" by (simp add: t_def same_text_def)
  have okt: "buf_ok t" "plain_doc t"
    using st "1.prems"(1,2) by (auto intro: same_text_buf_ok same_text_plain)
  have le: "page t \<le> pos t (ebuf t)"
    using pos_ebuf_nonneg [OF okt(1)] by (simp add: t_def)
  have step: "page_back i s = page_back (i - 1) t"
    using "1.prems"(4) p by (subst page_back.simps) (simp add: t_def)
  show ?case
  proof (cases "0 < i - 1")
    case True
    from "1.IH" [OF "1.prems"(4) p, folded t_def, OF okt le True]
    show ?thesis unfolding step by (simp add: t_def)
  next
    case False
    then have "page_back (i - 1) t = Inr t" by (subst page_back.simps) simp
    then show ?thesis unfolding step by (simp add: t_def)
  qed
qed

lemma adjust_at_end:
  assumes "buf_ok s"
  shows "adjust s (pos s (ebuf s)) column = Inr (pos s (ebuf s))"
proof -
  have "\<not> ptr s (pos s (ebuf s)) < ebuf s"
    using ptr_inside [OF assms pos_ebuf_nonneg [OF assms]] by simp
  then show ?thesis
    unfolding adjust_def by (subst adjust_loop.simps) simp
qed

lemma down_plain:
  assumes "state_ok s" "plain_doc s"
  shows "down s = Inr (s\<lparr>idx := pos s (ebuf s)\<rparr>)"
proof -
  from assms(1) have ok: "buf_ok s" "0 \<le> idx s" by (simp_all add: state_ok_def)
  show ?thesis
    by (simp add: down_def nextline_plain [OF ok(1) assms(2) ok(2)] adjust_at_end [OF ok(1)])
qed


lemma render_plain_run:
  fixes k :: nat
  assumes "buf_ok s" "plain_doc s" "0 \<le> epage s" "epage s + int k \<le> pos s (ebuf s)"
    and "idx s < epage s \<or> epage s + int k \<le> idx s"
    and "0 \<le> j" "j < COL_MAX"
    and "\<forall>m<k. i + (j + int m) div COL_MAX < ROW_MAX - 1"
  shows "render ROW_MAX COL_MAX i j s =
         render ROW_MAX COL_MAX (i + (j + int k) div COL_MAX) ((j + int k) mod COL_MAX)
           (s\<lparr>epage := epage s + int k\<rparr>)"
  using assms
proof (induction k arbitrary: i j s)
  case 0
  then show ?case by simp
next
  case (Suc k)
  have m: "mark_cursor i j s = s"
    using Suc.prems(5) by (auto simp: mark_cursor_def)
  from Suc.prems(8) have "i + (j + int 0) div COL_MAX < ROW_MAX - 1" by blast
  with Suc.prems(6,7) have row: "\<not> ROW_MAX - 1 \<le> i" by simp
  from Suc.prems(3,4) have lt: "epage s < pos s (ebuf s)" by simp
  with Suc.prems(1,3) have inside: "\<not> ebuf s \<le> ptr s (epage s)"
    by (simp add: ptr_inside not_le)
  from load_plain [OF Suc.prems(1,2,3) lt]
  obtain c where c: "load s (ptr s (epage s)) = Inr c" "c \<noteq> 10" "c \<noteq> 9" "c \<noteq> 13" by blast
  have nc: "next_col j c = j + 1" using c by (simp add: next_col_def)
  define s' where "s' = s\<lparr>epage := epage s + 1\<rparr>"
  have st: "same_text s s'" by (simp add: s'_def same_text_def)
  have ok': "buf_ok s'" "plain_doc s'"
    using st Suc.prems(1,2) by (auto intro: same_text_buf_ok same_text_plain)
  have e': "0 \<le> epage s'" "epage s' + int k \<le> pos s' (ebuf s')"
    using Suc.prems(3,4) same_text_pos [OF st] by (simp_all add: s'_def)
  have cur': "idx s' < epage s' \<or> epage s' + int k \<le> idx s'"
    using Suc.prems(5) by (auto simp: s'_def)
  have fin: "s'\<lparr>epage := epage s' + int k\<rparr> = s\<lparr>epage := epage s + int (Suc k)\<rparr>"
    by (simp add: s'_def)
  show ?case
  proof (cases "COL_MAX \<le> j + 1")
    case True
    with Suc.prems(7) have jc: "j + 1 = COL_MAX" by simp
    have step: "render ROW_MAX COL_MAX i j s = render ROW_MAX COL_MAX (i + 1) 0 s'"
      using row inside c True by (subst render.simps) (simp add: m nc s'_def)
    have d: "\<And>n::nat. (j + int (Suc n)) div COL_MAX = 1 + int n div COL_MAX"
      "\<And>n::nat. (j + int (Suc n)) mod COL_MAX = int n mod COL_MAX"
    proof -
      fix n :: nat
      have eq: "j + int (Suc n) = COL_MAX + int n" using jc by simp
      have nz: "COL_MAX \<noteq> 0" using Suc.prems(6,7) by simp
      have "(COL_MAX + int n) div COL_MAX = int n div COL_MAX + 1"
        by (rule div_add_self1 [OF nz])
      then show "(j + int (Suc n)) div COL_MAX = 1 + int n div COL_MAX"
        unfolding eq by simp
      have "(COL_MAX + int n) mod COL_MAX = int n mod COL_MAX"
        by (rule mod_add_self1)
      then show "(j + int (Suc n)) mod COL_MAX = int n mod COL_MAX"
        unfolding eq .
    qed
    have lim: "\<forall>m<k. (i + 1) + (0 + int m) div COL_MAX < ROW_MAX - 1"
    proof (intro allI impI)
      fix m assume "m < k"
      then have "i + (j + int (Suc m)) div COL_MAX < ROW_MAX - 1"
        using Suc.prems(8) by (meson Suc_mono)
      then have "i + (1 + int m div COL_MAX) < ROW_MAX - 1" unfolding d .
      then show "(i + 1) + (0 + int m) div COL_MAX < ROW_MAX - 1" by simp
    qed
    have z: "(0::int) \<le> 0" "(0::int) < COL_MAX" using Suc.prems(6,7) by simp_all
    from Suc.IH [OF ok' e' cur' z lim]
    have "render ROW_MAX COL_MAX (i + 1) 0 s' =
         render ROW_MAX COL_MAX (i + (1 + int k div COL_MAX)) (int k mod COL_MAX)
           (s\<lparr>epage := epage s + int (Suc k)\<rparr>)"
      unfolding fin by (simp add: add.assoc)
    then show ?thesis unfolding step d .
  next
    case False
    then have j1: "j + 1 < COL_MAX" by simp
    have step: "render ROW_MAX COL_MAX i j s = render ROW_MAX COL_MAX i (j + 1) s'"
      using row inside c False by (subst render.simps) (simp add: m nc s'_def)
    have a: "\<And>n::nat. j + 1 + int n = j + int (Suc n)" by simp
    have lim: "\<forall>m<k. i + (j + 1 + int m) div COL_MAX < ROW_MAX - 1"
    proof (intro allI impI)
      fix m assume "m < k"
      then have "i + (j + int (Suc m)) div COL_MAX < ROW_MAX - 1"
        using Suc.prems(8) by (meson Suc_mono)
      then show "i + (j + 1 + int m) div COL_MAX < ROW_MAX - 1" by (simp only: a)
    qed
    have z: "0 \<le> j + 1" using Suc.prems(6) by simp
    from Suc.IH [OF ok' e' cur' z j1 lim]
    show ?thesis unfolding step fin by (simp only: a)
  qed
qed


lemma div_less_rows:
  fixes C R m :: int
  assumes "0 < C" "m < R * C"
  shows "m div C < R"
proof -
  have "0 \<le> m mod C" using assms(1) by simp
  moreover have "C * (m div C) + m mod C = m" by simp
  ultimately have "C * (m div C) \<le> m" by linarith
  with assms(2) have "C * (m div C) < C * R" by (simp add: mult.commute)
  with assms(1) show ?thesis by (simp add: mult_less_cancel_left_pos)
qed

lemma update_display_plain:
  assumes "state_ok s" "plain_doc s" "4 \<le> ROW_MAX" "1 \<le> COL_MAX"
    and "n = (ROW_MAX - 1) * COL_MAX" "n \<le> idx s" "epage s \<le> idx s"
  shows "\<exists>s'. update_display ROW_MAX COL_MAX s = Inr s' \<and> same_text s s' \<and>
              page s' = 0 \<and> epage s' = n \<and> (idx s = n \<longrightarrow> row s' = ROW_MAX - 1 \<and> col s' = 0)"
proof -
  from assms(1) have ok: "buf_ok s" "0 \<le> idx s" "idx s \<le> pos s (ebuf s)"
    by (simp_all add: state_ok_def)
  have n0: "0 \<le> n" using assms(3,4,5) by simp
  define r1 where "r1 = (if idx s < page s then
           (case prevline s (idx s) of
              Inl f \<Rightarrow> Inl f
            | Inr pg \<Rightarrow> Inr (s\<lparr>page := pg\<rparr>))
         else Inr s)"
  have "\<exists>s1. r1 = Inr s1 \<and> same_text s s1 \<and> epage s1 = epage s"
    by (cases "idx s < page s")
       (simp_all add: r1_def prevline_plain [OF ok(1) assms(2) ok(3)] same_text_def)
  then obtain s1 where s1: "r1 = Inr s1" "same_text s s1" "epage s1 = epage s" by blast
  have ok1: "buf_ok s1" "plain_doc s1"
    using s1(2) ok(1) assms(2) by (auto intro: same_text_buf_ok same_text_plain)
  have i1: "idx s1 = idx s" using s1(2) by (simp add: same_text_def)
  note p1 = same_text_pos [OF s1(2)]
  define t where "t = s1\<lparr>page := pos s1 (ebuf s1)\<rparr>"
  have st: "same_text s1 t" by (simp add: t_def same_text_def)
  have okt: "buf_ok t" "plain_doc t"
    using st ok1 by (auto intro: same_text_buf_ok same_text_plain)
  have le: "page t \<le> pos t (ebuf t)"
    by (simp add: same_text_pos [OF st]) (simp add: t_def)
  have three: "0 < ROW_MAX - 3" using assms(3) by simp
  define t2 where "t2 = s1\<lparr>page := 0, epage := 0\<rparr>"
  have pb: "page_back (ROW_MAX - 3) t = Inr (s1\<lparr>page := 0\<rparr>)"
    using page_back_plain [OF okt le three] by (simp add: t_def)
  define r2 where "r2 = (if epage s1 \<le> idx s1 then
                (case nextline s1 (idx s1) of
                   Inl f \<Rightarrow> Inl f
                 | Inr pg \<Rightarrow>
                     page_back (if pg = pos s1 (ebuf s1) then ROW_MAX - 3 else ROW_MAX - 1)
                       (s1\<lparr>page := pg\<rparr>))
              else Inr s1)"
  have r2: "r2 = Inr (s1\<lparr>page := 0\<rparr>)"
    using assms(7) ok(2) pb
    by (simp add: r2_def s1(3) i1 nextline_plain [OF ok1] t_def)
  have st2: "same_text s t2" using s1(2) by (simp add: t2_def same_text_def)
  have okt2: "buf_ok t2" "plain_doc t2"
    using st2 ok(1) assms(2) by (auto intro: same_text_buf_ok same_text_plain)
  have C0: "0 < COL_MAX" using assms(4) by simp
  have run: "render ROW_MAX COL_MAX 0 0 t2 =
         render ROW_MAX COL_MAX (0 + (0 + int (nat n)) div COL_MAX) ((0 + int (nat n)) mod COL_MAX)
           (t2\<lparr>epage := epage t2 + int (nat n)\<rparr>)"
  proof (rule render_plain_run [OF okt2])
    show "0 \<le> epage t2" by (simp add: t2_def)
    show "epage t2 + int (nat n) \<le> pos t2 (ebuf t2)"
      using n0 assms(6) ok(3) by (simp add: same_text_pos [OF st2]) (simp add: t2_def)
    show "idx t2 < epage t2 \<or> epage t2 + int (nat n) \<le> idx t2"
      using n0 assms(6) i1 by (simp add: t2_def)
    show "(0::int) \<le> 0" by simp
    show "0 < COL_MAX" by (rule C0)
    show "\<forall>m<nat n. 0 + (0 + int m) div COL_MAX < ROW_MAX - 1"
    proof (intro allI impI)
      fix m assume "m < nat n"
      then have "int m < (ROW_MAX - 1) * COL_MAX" using assms(5) by simp
      from div_less_rows [OF C0 this] show "0 + (0 + int m) div COL_MAX < ROW_MAX - 1" by simp
    qed
  qed
  define t3 where "t3 = t2\<lparr>epage := n\<rparr>"
  have dm: "n div COL_MAX = ROW_MAX - 1" "n mod COL_MAX = 0"
    using C0 by (simp_all add: assms(5))
  have run': "render ROW_MAX COL_MAX 0 0 t2 = render ROW_MAX COL_MAX (ROW_MAX - 1) 0 t3"
    using run n0 by (simp add: dm t3_def t2_def)
  define s3 where "s3 = mark_cursor (ROW_MAX - 1) 0 t3"
  have r3: "render ROW_MAX COL_MAX 0 0 t2 = Inr s3"
    unfolding run' by (subst render.simps) (simp add: s3_def)
  have s03: "same_text s s3"
    using s1(2) by (simp add: s3_def t3_def t2_def mark_cursor_def same_text_def)
  have f3: "page s3 = 0" "epage s3 = n" "idx s = n \<longrightarrow> row s3 = ROW_MAX - 1 \<and> col s3 = 0"
    using i1 by (simp_all add: s3_def t3_def t2_def mark_cursor_def)
  from get_lineno_ok [OF same_text_state_ok [OF s03 assms(1)]]
  obtain s4 where s4: "get_lineno s3 = Inr s4" "same_text s3 s4" by blast
  have "update_display ROW_MAX COL_MAX s = Inr s4"
    unfolding update_display_def r1_def [symmetric] s1(1)
    by (simp add: r2_def [symmetric] r2 t2_def [symmetric] r3 s4(1))
  moreover have "same_text s s4" using s03 s4(2) by (rule same_text_trans)
  moreover have "page s4 = 0" "epage s4 = n" "idx s = n \<longrightarrow> row s4 = ROW_MAX - 1 \<and> col s4 = 0"
    using f3 get_lineno_display [OF s4(1)] by simp_all
  ultimately show ?thesis by blast
qed


lemma main_start_file:
  assumes "length bytes \<le> BUF"
  shows "doc (main_start BUF (Some (name, Some bytes))) = bytes"
    and "idx (main_start BUF (Some (name, Some bytes))) = 0"
  using assms by (simp_all add: main_start_def init_buf_def doc_def min_absorb1)

text \<open>
  C7. Take any build with \<open>ROW_MAX \<ge> 4\<close> and \<open>COL_MAX \<ge> 1\<close> and a file that is one line of
  \<open>(ROW_MAX - 1) * COL_MAX + 1\<close> ordinary bytes, one more than the grid has cells. After
  the keys \<open>^X\<close> (cursor down, which takes the cursor to the end of the document) and
  \<open>^S\<close> (cursor left) the cursor is at offset \<open>(ROW_MAX - 1) * COL_MAX\<close>, and
  \<open>update_display\<close> records it in row \<open>ROW_MAX - 1\<close>, the row below the last row
  \<open>ROW_MAX - 2\<close> of the grid. The witness is the default build, 24 by 80 with an arena
  of 8 MiB, on a file of 1841 bytes \<open>a\<close>: the cursor is recorded in row 23 of a grid
  whose rows are 0 to 22.
\<close>

theorem long_line_cursor_below_grid:
  assumes "4 \<le> ROW_MAX" "1 \<le> COL_MAX"
    and "int (length bytes) = (ROW_MAX - 1) * COL_MAX + 1" "length bytes \<le> BUF"
    and "\<forall>c \<in> set bytes. c \<noteq> 10 \<and> c \<noteq> 9 \<and> c \<noteq> 13"
  shows "\<exists>s. main_loop ROW_MAX COL_MAX opens [24, 19] (main_start BUF (Some (name, Some bytes))) = Inr s \<and>
             doc s = bytes \<and> idx s = (ROW_MAX - 1) * COL_MAX \<and>
             row s = ROW_MAX - 1 \<and> col s = 0"
proof -
  define n where "n = (ROW_MAX - 1) * COL_MAX"
  define s0 where "s0 = main_start BUF (Some (name, Some bytes))"
  have ok0: "state_ok s0" unfolding s0_def using main_start_ok by blast
  have d0: "doc s0 = bytes" "idx s0 = 0"
    unfolding s0_def by (rule main_start_file [OF assms(4)])+
  have len0: "pos s0 (ebuf s0) = n + 1"
    using length_doc [of s0] ok0 d0(1) assms(3) by (simp add: state_ok_def n_def)
  have p0: "plain_doc s0" using assms(5) by (simp add: plain_doc_def d0)
  \<comment> \<open>the first frame\<close>
  from update_display_ok [OF ok0]
  obtain s1 where s1: "update_display ROW_MAX COL_MAX s0 = Inr s1" "same_text s0 s1"
    "epage s1 \<le> pos s0 (ebuf s0)" by blast
  have ok1: "state_ok s1" "plain_doc s1"
    using s1(2) ok0 p0 by (auto intro: same_text_state_ok same_text_plain)
  have len1: "pos s1 (ebuf s1) = n + 1" using same_text_pos [OF s1(2)] len0 by simp
  \<comment> \<open>cursor down: to the end of the document\<close>
  define s2 where "s2 = s1\<lparr>idx := n + 1\<rparr>"
  have dn: "down s1 = Inr s2"
    using down_plain [OF ok1] by (simp add: len1 s2_def)
  have "pos s2 (ebuf s2) = pos s1 (ebuf s1)" by (simp add: s2_def pos_def ebuf_def)
  then have st12: "doc s2 = doc s1" "pos s2 (ebuf s2) = n + 1" "epage s2 = epage s1" "idx s2 = n + 1"
    using len1 by (simp_all add: s2_def doc_def)
  have n0: "0 \<le> n" using assms(1,2) by (simp add: n_def)
  have ok2: "state_ok s2" "plain_doc s2"
    using state_ok_idx [OF ok1(1), of "n + 1"] n0 len1 ok1(2)
    by (simp_all add: s2_def [symmetric] plain_doc_def st12)
  have step1: "main_loop ROW_MAX COL_MAX opens [24, 19] s0 = main_loop ROW_MAX COL_MAX opens [19] s2"
    by (subst main_loop.simps) (simp add: s1(1) command_def dn)
  \<comment> \<open>the second frame\<close>
  have "n \<le> idx s2" "epage s2 \<le> idx s2"
    using s1(3) len0 by (simp_all add: st12)
  from update_display_plain [OF ok2 assms(1,2) n_def this]
  obtain s3 where s3: "update_display ROW_MAX COL_MAX s2 = Inr s3" "same_text s2 s3"
    "page s3 = 0" "epage s3 = n" by blast
  have ok3: "state_ok s3" "plain_doc s3" "idx s3 = n + 1"
  proof -
    show "state_ok s3" using s3(2) ok2(1) by (rule same_text_state_ok)
    show "plain_doc s3" using s3(2) ok2(2) by (rule same_text_plain)
    show "idx s3 = n + 1" using s3(2) st12(4) by (simp add: same_text_def)
  qed
  \<comment> \<open>cursor left\<close>
  define s4 where "s4 = s3\<lparr>idx := n\<rparr>"
  have lf: "left s3 = s4" using n0 by (simp add: left_def ok3(3) s4_def)
  have st34: "doc s4 = doc s3" "pos s4 (ebuf s4) = pos s3 (ebuf s3)" "epage s4 = n" "idx s4 = n"
    by (simp_all add: s4_def doc_def pos_def ebuf_def s3(4))
  have len3: "pos s3 (ebuf s3) = n + 1" using same_text_pos [OF s3(2)] st12(2) by simp
  have ok4: "state_ok s4" "plain_doc s4"
    using state_ok_idx [OF ok3(1), of n] n0 len3 ok3(2)
    by (simp_all add: s4_def [symmetric] plain_doc_def st34)
  have step2: "main_loop ROW_MAX COL_MAX opens [19] s2 = main_loop ROW_MAX COL_MAX opens [] s4"
    by (subst main_loop.simps) (simp add: s3(1) command_def lf)
  \<comment> \<open>the third frame\<close>
  have "n \<le> idx s4" "epage s4 \<le> idx s4" by (simp_all add: st34)
  from update_display_plain [OF ok4 assms(1,2) n_def this]
  obtain s5 where s5: "update_display ROW_MAX COL_MAX s4 = Inr s5" "same_text s4 s5"
    "idx s4 = n \<longrightarrow> row s5 = ROW_MAX - 1 \<and> col s5 = 0" by blast
  have step3: "main_loop ROW_MAX COL_MAX opens [] s4 = Inr s5"
    by (subst main_loop.simps) (simp add: s5(1) command_def)
  have "doc s5 = bytes"
    using same_text_doc [OF s5(2)] same_text_doc [OF s3(2)] same_text_doc [OF s1(2)]
    by (simp add: st34 st12 d0)
  moreover have "idx s5 = n" using s5(2) by (simp add: same_text_def st34)
  moreover have "row s5 = ROW_MAX - 1" "col s5 = 0" using s5(3) by (simp_all add: st34)
  ultimately show ?thesis
    unfolding s0_def [symmetric] step1 step2 step3 n_def by blast
qed

theorem long_line_cursor_below_grid_witness:
  "(4::int) \<le> 24 \<and> (1::int) \<le> 80 \<and>
   int (length (replicate 1841 (97::byte))) = (24 - 1) * 80 + 1 \<and>
   length (replicate 1841 (97::byte)) \<le> 8388608 \<and>
   (\<exists>s. main_loop 24 80 True [24, 19]
          (main_start 8388608 (Some ([102], Some (replicate 1841 97)))) = Inr s \<and>
        doc s = replicate 1841 97 \<and> idx s = 1840 \<and> row s = 23 \<and> col s = 0)"
proof -
  have p: "\<forall>c \<in> set (replicate 1841 (97::byte)). c \<noteq> 10 \<and> c \<noteq> 9 \<and> c \<noteq> 13" by simp
  have l: "int (length (replicate 1841 (97::byte))) = (24 - 1) * 80 + 1"
    "length (replicate 1841 (97::byte)) \<le> 8388608" by simp_all
  from long_line_cursor_below_grid [OF _ _ l p, of True "[102]"] l
  show ?thesis by simp
qed

text \<open>
  The same happens without an overlong line, when the cursor stands at the end of a
  line that fills the last row of the grid: here on a grid of three rows of sixteen
  cells.
\<close>

lemma wrapped_line_cursor_below_grid:
  "main_loop 4 16 True (24 # 24 # replicate 16 4)
     (main_start 32 (Some ([102], Some ([99, 10, 99, 10] @ replicate 16 97 @ [10, 98]))))
     = Inr wrapped_line \<and>
   row wrapped_line = 4 - 1"
  by code_simp

end
